theory Spec2Isabelle
  imports Main "HOL-Library.Sublist" "HOL-Library.Multiset"
begin

section \<open>Data model\<close>

text \<open>
  The algorithms of \<^verbatim>\<open>paths.go\<close> are generic over the vertex hash type \<open>K\<close> (here \<open>'k\<close>)
  and the vertex value type \<open>T\<close> (here \<open>'t\<close>).  Errors are values: every function that
  returns \<^verbatim>\<open>(x, error)\<close> returns a sum, \<open>Inl\<close> carrying the error.  The wrappers built
  with \<^verbatim>\<open>fmt.Errorf("...: %w", err)\<close> are constructors that keep the wrapped error.
\<close>

datatype 'k error =
    ErrVertexNotFound
  | ErrTargetNotReachable
  | ErrInvalidGraphKind
  | ErrQueueEmpty
  | CouldNotGetVertex 'k "'k error"
  | FailedPredecessorMap "'k error"
  | CouldNotGetAdjacencyMap "'k error"
  | PopErr "'k error"

text \<open>
  \<open>ErrInvalidGraphKind\<close> is the value of
  \<^verbatim>\<open>errors.New("SCCs can only be detected in directed graphs")\<close>;
  \<open>ErrVertexNotFound\<close> and \<open>ErrQueueEmpty\<close> are the errors of the two collaborators
  (vertex lookup, pop on an empty queue).
\<close>

text \<open>
  Modelled from the spec: the type \<^verbatim>\<open>Edge\<close> is declared outside \<^verbatim>\<open>paths.go\<close>.  The code
  reads \<^verbatim>\<open>edge.Properties.Weight\<close> only and converts it with \<^verbatim>\<open>float64(...)\<close>; the spec
  says an edge carries a numeric weight.  The weight is an integer here.
\<close>

record Edge =
  Weight :: int

record Traits =
  IsDirected :: bool
  IsWeighted :: bool

text \<open>
  A Go \<^verbatim>\<open>map[K]map[K]Edge[K]\<close> is an association list; the order of the list is the order
  in which \<^verbatim>\<open>range\<close> happens to deliver the entries, so a statement for every list is a
  statement for every iteration order.  \<^verbatim>\<open>CreatesCycle\<close>, \<^verbatim>\<open>ShortestPath\<close> and
  \<^verbatim>\<open>StronglyConnectedComponents\<close> range over each map once at most.  \<^verbatim>\<open>FindAllPaths\<close>
  ranges over the same inner map once for every partial path that ends at its vertex; the
  list fixes one order for all of these loops, and the statements about \<^verbatim>\<open>FindAllPaths\<close>
  are about the set of the returned texts.  A Go map has no duplicate keys
  (\<open>distinct_keys\<close>).
\<close>

type_synonym 'k edges = "('k \<times> Edge) list"
type_synonym 'k snapshot = "('k \<times> 'k edges) list"

definition distinct_keys :: "('a \<times> 'b) list \<Rightarrow> bool" where
  "distinct_keys m = distinct (map fst m)"

text \<open>\<^verbatim>\<open>m[k]\<close> on a map of maps: the inner map, or the nil map (no entries) for a missing key.\<close>

definition edges_of :: "'k snapshot \<Rightarrow> 'k \<Rightarrow> 'k edges" where
  "edges_of m k = (case map_of m k of None \<Rightarrow> [] | Some es \<Rightarrow> es)"

text \<open>
  Modelled from the spec: the interface \<^verbatim>\<open>Graph[K, T]\<close> (the Graph Query Facade) is declared
  outside \<^verbatim>\<open>paths.go\<close>.  Following the spec's external interfaces, vertex lookup fails with
  the not-found error exactly for an absent hash, the adjacency and predecessor snapshots are
  delivered as mappings, and the traits are two flags.  The code's branches for a failing
  snapshot call are kept in the functions below.
\<close>

record ('k, 't) Graph =
  vertices :: "('k \<times> 't) list"
  adjacencySnapshot :: "'k snapshot"
  predecessorSnapshot :: "'k snapshot"
  Traits :: Traits

definition Vertex :: "('k, 't) Graph \<Rightarrow> 'k \<Rightarrow> 'k error + 't" where
  "Vertex g hash = (case map_of (vertices g) hash of
                      None \<Rightarrow> Inl ErrVertexNotFound
                    | Some v \<Rightarrow> Inr v)"

definition AdjacencyMap :: "('k, 't) Graph \<Rightarrow> 'k error + 'k snapshot" where
  "AdjacencyMap g = Inr (adjacencySnapshot g)"

definition PredecessorMap :: "('k, 't) Graph \<Rightarrow> 'k error + 'k snapshot" where
  "PredecessorMap g = Inr (predecessorSnapshot g)"

definition vertex_exists :: "('k, 't) Graph \<Rightarrow> 'k \<Rightarrow> bool" where
  "vertex_exists g hash = (map_of (vertices g) hash \<noteq> None)"

section \<open>CreatesCycle\<close>

text \<open>
  The loop of \<^verbatim>\<open>CreatesCycle\<close>.  The stack is kept with its top at the head:
  \<^verbatim>\<open>append(stack, x)\<close> is \<open>x # stack\<close>, and the pop takes the head.  \<^verbatim>\<open>visited\<close> is used as a
  set of keys.
\<close>

function CreatesCycle_loop :: "'k snapshot \<Rightarrow> 'k \<Rightarrow> 'k list \<Rightarrow> 'k set \<Rightarrow> bool" where
  "CreatesCycle_loop predecessorMap target [] visited = False"
| "CreatesCycle_loop predecessorMap target (currentHash # stack) visited =
     (if currentHash \<notin> visited then
        (if currentHash = target then True
         else CreatesCycle_loop predecessorMap target
                (fold (\<lambda>adjacency stack. adjacency # stack)
                      (map fst (edges_of predecessorMap currentHash)) stack)
                (insert currentHash visited))
      else CreatesCycle_loop predecessorMap target stack visited)"
  by pat_completeness auto

lemma edges_of_no_key: "k \<notin> fst ` set m \<Longrightarrow> edges_of m k = []"
  by (simp add: edges_of_def map_of_eq_None_iff [THEN iffD2])

termination CreatesCycle_loop
proof (relation "inv_image (less_than <*lex*> less_than)
          (\<lambda>(pm, t, stack, visited). (card (fst ` set pm - visited), length stack))",
       goal_cases)
  case 1
  show ?case by (intro wf_inv_image wf_lex_prod wf_less_than)
next
  case (2 predecessorMap target currentHash stack visited)
  show ?case
  proof (cases "currentHash \<in> fst ` set predecessorMap")
    case True
    have "fst ` set predecessorMap - insert currentHash visited
            \<subset> fst ` set predecessorMap - visited"
      using True 2 by auto
    then have "card (fst ` set predecessorMap - insert currentHash visited)
            < card (fst ` set predecessorMap - visited)"
      by (intro psubset_card_mono) auto
    then show ?thesis by simp
  next
    case False
    then have "edges_of predecessorMap currentHash = []"
      by (rule edges_of_no_key)
    moreover have "fst ` set predecessorMap - insert currentHash visited
            = fst ` set predecessorMap - visited"
      using False by auto
    ultimately show ?thesis by simp
  qed
next
  case (3 predecessorMap target currentHash stack visited)
  show ?case by simp
qed

definition CreatesCycle :: "('k, 't) Graph \<Rightarrow> 'k \<Rightarrow> 'k \<Rightarrow> 'k error + bool" where
  "CreatesCycle g source target =
     (case Vertex g source of
        Inl err \<Rightarrow> Inl (CouldNotGetVertex source err)
      | Inr _ \<Rightarrow>
     (case Vertex g target of
        Inl err \<Rightarrow> Inl (CouldNotGetVertex target err)
      | Inr _ \<Rightarrow>
     (if source = target then Inr True
      else
     (case PredecessorMap g of
        Inl err \<Rightarrow> Inl (FailedPredecessorMap err)
      | Inr predecessorMap \<Rightarrow>
          Inr (CreatesCycle_loop predecessorMap target [source] {})))))"

text \<open>
  The edges as the predecessor snapshot records them: \<open>u\<close> is a key of
  \<^verbatim>\<open>predecessorMap[v]\<close> when there is an edge from \<open>u\<close> to \<open>v\<close>.  \<open>pred_step\<close> is one step
  backward (from \<open>v\<close> to a predecessor \<open>u\<close>), \<open>edge_step\<close> one step along an edge.
\<close>

definition pred_step :: "'k snapshot \<Rightarrow> ('k \<times> 'k) set" where
  "pred_step predecessorMap = {(v, u). u \<in> fst ` set (edges_of predecessorMap v)}"

definition edge_step :: "'k snapshot \<Rightarrow> ('k \<times> 'k) set" where
  "edge_step predecessorMap = {(u, v). u \<in> fst ` set (edges_of predecessorMap v)}"

section \<open>StronglyConnectedComponents\<close>

text \<open>
  \<^verbatim>\<open>sccState\<close>.  The maps \<^verbatim>\<open>onStack\<close>, \<^verbatim>\<open>lowlink\<close> and \<^verbatim>\<open>index\<close> are read with Go's
  default for a missing key (\<^verbatim>\<open>false\<close>, \<^verbatim>\<open>0\<close>); \<^verbatim>\<open>visited\<close> is used as a set of keys.  The
  stack is kept with its top at the head.
\<close>

record 'k sccState =
  adjacencyMap :: "'k snapshot"
  components :: "'k list list"
  stack :: "'k list"
  onStack :: "'k \<rightharpoonup> bool"
  visited :: "'k set"
  lowlink :: "'k \<rightharpoonup> int"
  index :: "'k \<rightharpoonup> int"
  time :: int

definition int_at :: "('k \<rightharpoonup> int) \<Rightarrow> 'k \<Rightarrow> int" where
  "int_at m k = (case m k of None \<Rightarrow> 0 | Some i \<Rightarrow> i)"

definition bool_at :: "('k \<rightharpoonup> bool) \<Rightarrow> 'k \<Rightarrow> bool" where
  "bool_at m k = (case m k of None \<Rightarrow> False | Some b \<Rightarrow> b)"

text \<open>
  A run of \<^verbatim>\<open>findSCC\<close> ends in a state, or panics: \<^verbatim>\<open>state.stack[len(state.stack)-1]\<close>
  on an empty stack is an index out of range.
\<close>

datatype 'a outcome = Panic | Done 'a

text \<open>
  The loop \<^verbatim>\<open>for hash != vertexHash\<close> that pops one component.  Its first argument is the
  current value of the variable \<^verbatim>\<open>hash\<close>, which the source declares with \<^verbatim>\<open>var hash K\<close>:
  it starts as the zero value of \<open>K\<close>.
\<close>

fun popComponent ::
  "'k \<Rightarrow> 'k \<Rightarrow> 'k list \<Rightarrow> ('k \<rightharpoonup> bool) \<Rightarrow> 'k list
     \<Rightarrow> ('k list \<times> ('k \<rightharpoonup> bool) \<times> 'k list) outcome" where
  "popComponent hash vertexHash [] onSt component =
     (if hash \<noteq> vertexHash then Panic else Done ([], onSt, component))"
| "popComponent hash vertexHash (hash' # rest) onSt component =
     (if hash \<noteq> vertexHash
      then popComponent hash' vertexHash rest (onSt(hash' \<mapsto> False)) (component @ [hash'])
      else Done (hash' # rest, onSt, component))"

text \<open>The first lines of \<^verbatim>\<open>findSCC\<close>, up to \<^verbatim>\<open>state.time++\<close>.\<close>

definition enterVertex :: "'k \<Rightarrow> 'k sccState \<Rightarrow> 'k sccState" where
  "enterVertex vertexHash state =
     state\<lparr>stack := vertexHash # stack state,
           onStack := (onStack state)(vertexHash \<mapsto> True),
           visited := insert vertexHash (visited state),
           index := (index state)(vertexHash \<mapsto> time state),
           lowlink := (lowlink state)(vertexHash \<mapsto> time state),
           time := time state + 1\<rparr>"

text \<open>The last lines of \<^verbatim>\<open>findSCC\<close>, from \<^verbatim>\<open>if state.lowlink[vertexHash] == ...\<close>.\<close>

definition emitComponent :: "'k \<Rightarrow> 'k \<Rightarrow> 'k sccState \<Rightarrow> 'k sccState outcome" where
  "emitComponent zero vertexHash state =
     (if int_at (lowlink state) vertexHash = int_at (index state) vertexHash then
        (case popComponent zero vertexHash (stack state) (onStack state) [] of
           Panic \<Rightarrow> Panic
         | Done (stack', onStack', component) \<Rightarrow>
             Done (state\<lparr>stack := stack', onStack := onStack',
                         components := components state @ [component]\<rparr>))
      else Done state)"

text \<open>
  \<^verbatim>\<open>findSCC\<close>, as the function that runs the rest of the loop over the adjacencies of
  \<^verbatim>\<open>vertexHash\<close> and then emits.  \<^verbatim>\<open>math.Min\<close> on the two converted integers is their
  minimum.  The recursion is the source's; \<open>None\<close> is a run that does not return.
\<close>

partial_function (option) findSCC_rest ::
  "'k \<Rightarrow> 'k \<Rightarrow> 'k list \<Rightarrow> 'k sccState \<Rightarrow> 'k sccState outcome option" where
  "findSCC_rest zero vertexHash adjacencies state =
     (case adjacencies of
        [] \<Rightarrow> Some (emitComponent zero vertexHash state)
      | adjacency # rest \<Rightarrow>
          (if adjacency \<notin> visited state then
             Option.bind
               (findSCC_rest zero adjacency
                  (map fst (edges_of (adjacencyMap state) adjacency))
                  (enterVertex adjacency state))
               (\<lambda>r. case r of
                       Panic \<Rightarrow> Some Panic
                     | Done state' \<Rightarrow>
                         findSCC_rest zero vertexHash rest
                           (state'\<lparr>lowlink := (lowlink state')(vertexHash \<mapsto>
                               min (int_at (lowlink state') vertexHash)
                                   (int_at (lowlink state') adjacency))\<rparr>))
           else if bool_at (onStack state) adjacency then
             findSCC_rest zero vertexHash rest
               (state\<lparr>lowlink := (lowlink state)(vertexHash \<mapsto>
                   min (int_at (lowlink state) vertexHash)
                       (int_at (index state) adjacency))\<rparr>)
           else findSCC_rest zero vertexHash rest state))"

declare findSCC_rest.simps [code]

definition findSCC :: "'k \<Rightarrow> 'k \<Rightarrow> 'k sccState \<Rightarrow> 'k sccState outcome option" where
  "findSCC zero vertexHash state =
     findSCC_rest zero vertexHash
       (map fst (edges_of (adjacencyMap state) vertexHash))
       (enterVertex vertexHash state)"

text \<open>The loop \<^verbatim>\<open>for hash := range state.adjacencyMap\<close> of \<^verbatim>\<open>StronglyConnectedComponents\<close>.\<close>

fun sccAll :: "'k \<Rightarrow> 'k list \<Rightarrow> 'k sccState \<Rightarrow> 'k sccState outcome option" where
  "sccAll zero [] state = Some (Done state)"
| "sccAll zero (hash # hashes) state =
     (if hash \<notin> visited state then
        (case findSCC zero hash state of
           None \<Rightarrow> None
         | Some Panic \<Rightarrow> Some Panic
         | Some (Done state') \<Rightarrow> sccAll zero hashes state')
      else sccAll zero hashes state)"

text \<open>
  \<^verbatim>\<open>StronglyConnectedComponents\<close>.  The first argument is the zero value of the hash type
  \<open>K\<close> (\<^verbatim>\<open>0\<close> for an integer type, the empty text for \<^verbatim>\<open>string\<close>).
\<close>

definition StronglyConnectedComponents ::
  "'k \<Rightarrow> ('k, 't) Graph \<Rightarrow> ('k error + 'k list list) outcome option" where
  "StronglyConnectedComponents zero g =
     (if \<not> IsDirected (Traits g) then Some (Done (Inl ErrInvalidGraphKind))
      else
        (case AdjacencyMap g of
           Inl err \<Rightarrow> Some (Done (Inl (CouldNotGetAdjacencyMap err)))
         | Inr adjMap \<Rightarrow>
             (case sccAll zero (map fst adjMap)
                     \<lparr>adjacencyMap = adjMap, components = [], stack = [],
                      onStack = Map.empty, visited = {}, lowlink = Map.empty,
                      index = Map.empty, time = 0\<rparr> of
                None \<Rightarrow> None
              | Some Panic \<Rightarrow> Some Panic
              | Some (Done state) \<Rightarrow> Some (Done (Inr (components state))))))"

section \<open>Priority queue and distances\<close>

text \<open>
  The distances of \<^verbatim>\<open>ShortestPath\<close> are \<^verbatim>\<open>float64\<close> values: \<^verbatim>\<open>math.Inf(1)\<close>, \<^verbatim>\<open>0\<close>, and sums
  of converted integer edge weights.  They are modelled as an integer or positive infinity,
  with exact addition and comparison; \<^verbatim>\<open>float64\<close> agrees with that as long as the sums stay
  below \<open>2^53\<close> in magnitude.
\<close>

datatype float64 = Fin int | PosInf

fun f64_add :: "float64 \<Rightarrow> float64 \<Rightarrow> float64" where
  "f64_add (Fin a) (Fin b) = Fin (a + b)"
| "f64_add PosInf y = PosInf"
| "f64_add (Fin a) PosInf = PosInf"

fun f64_less :: "float64 \<Rightarrow> float64 \<Rightarrow> bool" where
  "f64_less (Fin a) (Fin b) = (a < b)"
| "f64_less (Fin a) PosInf = True"
| "f64_less PosInf y = False"

definition IsInf :: "float64 \<Rightarrow> bool" where
  "IsInf x = (x = PosInf)"

text \<open>
  The priority queue (\<^verbatim>\<open>newPriorityQueue\<close>, \<^verbatim>\<open>Push\<close>, \<^verbatim>\<open>Pop\<close>, \<^verbatim>\<open>UpdatePriority\<close>, \<^verbatim>\<open>Len\<close>)
  is declared outside \<^verbatim>\<open>paths.go\<close>.  The functions below take it as a parameter: a record
  of its operations on a state type \<open>'q\<close>.  \<^verbatim>\<open>Pop\<close> returns an item and an error (as the Go
  method returns both) together with the queue after the call.
\<close>

record ('q, 'a, 'k) priorityQueue =
  newPriorityQueue :: 'q
  Push :: "'a \<Rightarrow> float64 \<Rightarrow> 'q \<Rightarrow> 'q"
  Pop :: "'q \<Rightarrow> ('a \<times> 'k error option) \<times> 'q"
  UpdatePriority :: "'a \<Rightarrow> float64 \<Rightarrow> 'q \<Rightarrow> 'q"
  Len :: "'q \<Rightarrow> nat"

text \<open>
  Modelled from the spec: what the priority queue does, as a predicate on an
  implementation \<open>Q\<close> and its abstraction \<open>\<alpha>\<close> to the multiset of queued (item, priority)
  pairs.  Push adds the pair; the size is the number of pairs; pop-minimum on a non-empty
  queue succeeds, removing a pair that no other pair undercuts (which one, among equal
  priorities, is left open); update-priority replaces the priority of an item that is
  present (once).
\<close>

definition pq_spec ::
  "('q, 'a, 'k) priorityQueue \<Rightarrow> ('q \<Rightarrow> ('a \<times> float64) multiset) \<Rightarrow> bool" where
  "pq_spec Q \<alpha> =
     (\<alpha> (newPriorityQueue Q) = {#}
      \<and> (\<forall>x p q. \<alpha> (Push Q x p q) = add_mset (x, p) (\<alpha> q))
      \<and> (\<forall>q. Len Q q = size (\<alpha> q))
      \<and> (\<forall>q. \<alpha> q \<noteq> {#} \<longrightarrow>
            (\<exists>x p q'. Pop Q q = ((x, None), q') \<and> (x, p) \<in># \<alpha> q
                 \<and> (\<forall>e \<in># \<alpha> q. \<not> f64_less (snd e) p)
                 \<and> \<alpha> q' = \<alpha> q - {#(x, p)#}))
      \<and> (\<forall>x p p0 q. (x, p0) \<in># \<alpha> q \<and> (\<forall>e \<in># \<alpha> q - {#(x, p0)#}. fst e \<noteq> x) \<longrightarrow>
            \<alpha> (UpdatePriority Q x p q) = add_mset (x, p) (\<alpha> q - {#(x, p0)#})))"

text \<open>
  The part of that behaviour that bounds the loops: a pop on a queue of positive size
  makes it smaller, and an update of a priority keeps the size.
\<close>

definition pq_sizes :: "('q, 'a, 'k) priorityQueue \<Rightarrow> bool" where
  "pq_sizes Q =
     ((\<forall>q. 0 < Len Q q \<longrightarrow> Len Q (snd (Pop Q q)) < Len Q q)
      \<and> (\<forall>x p q. Len Q (UpdatePriority Q x p q) = Len Q q))"

text \<open>
  Modelled from the spec: one implementation, a list of pairs.  Pop takes the first pair of
  least priority and fails with the empty-queue error on the empty list, returning the
  zero value of the item type (the parameter \<open>zero\<close>).
\<close>

fun least_entry :: "('a \<times> float64) \<Rightarrow> ('a \<times> float64) list \<Rightarrow> ('a \<times> float64)" where
  "least_entry best [] = best"
| "least_entry best (e # es) =
     (if f64_less (snd e) (snd best) then least_entry e es else least_entry best es)"

definition listQueue :: "'a \<Rightarrow> (('a \<times> float64) list, 'a, 'k) priorityQueue" where
  "listQueue zero =
     \<lparr>newPriorityQueue = [],
      Push = (\<lambda>x p q. q @ [(x, p)]),
      Pop = (\<lambda>q. case q of
                    [] \<Rightarrow> ((zero, Some ErrQueueEmpty), [])
                  | e # es \<Rightarrow> ((fst (least_entry e es), None), remove1 (least_entry e es) q)),
      UpdatePriority = (\<lambda>x p q. map (\<lambda>e. if fst e = x then (x, p) else e) q),
      Len = length\<rparr>"

text \<open>
  A defective implementation, for the question what the callers do when a pop fails: its
  pop removes the head of the list and reports the empty-queue error every time.
\<close>

definition failingQueue :: "'a \<Rightarrow> (('a \<times> float64) list, 'a, 'k) priorityQueue" where
  "failingQueue zero =
     \<lparr>newPriorityQueue = [],
      Push = (\<lambda>x p q. q @ [(x, p)]),
      Pop = (\<lambda>q. ((zero, Some ErrQueueEmpty), tl q)),
      UpdatePriority = (\<lambda>x p q. q),
      Len = length\<rparr>"

section \<open>ShortestPath\<close>

text \<open>
  The state of the loops of \<^verbatim>\<open>ShortestPath\<close>.  \<^verbatim>\<open>weights[k]\<close> for a missing key is Go's
  default \<^verbatim>\<open>0\<close>.  The map \<^verbatim>\<open>visited\<close> of the source is written and never read; it is left
  out.
\<close>

record ('q, 'k) spState =
  queue :: 'q
  weights :: "'k \<rightharpoonup> float64"
  bestPredecessors :: "'k \<rightharpoonup> 'k"

definition weight_at :: "('k \<rightharpoonup> float64) \<Rightarrow> 'k \<Rightarrow> float64" where
  "weight_at w k = (case w k of None \<Rightarrow> Fin 0 | Some x \<Rightarrow> x)"

text \<open>The body of \<^verbatim>\<open>for hash := range adjacencyMap\<close>.\<close>

definition sp_init_vertex ::
  "('q, 'k, 'k) priorityQueue \<Rightarrow> 'k \<Rightarrow> 'k \<Rightarrow> ('q, 'k) spState \<Rightarrow> ('q, 'k) spState" where
  "sp_init_vertex Q source hash st =
     (let st' = (if hash \<noteq> source then st\<lparr>weights := (weights st)(hash \<mapsto> PosInf)\<rparr> else st)
      in st'\<lparr>queue := Push Q hash (weight_at (weights st') hash) (queue st')\<rparr>)"

text \<open>
  The value of \<^verbatim>\<open>edgeWeight\<close> after the test of the traits: the weight of the edge, or
  \<open>1\<close> when the graph is not weighted.
\<close>

definition effective_weight :: "bool \<Rightarrow> Edge \<Rightarrow> int" where
  "effective_weight isWeighted edge = (if \<not> isWeighted then 1 else Weight edge)"

text \<open>The body of \<^verbatim>\<open>for adjacency, edge := range adjacencyMap[vertex]\<close>.\<close>

definition sp_relax ::
  "('q, 'k, 'k) priorityQueue \<Rightarrow> bool \<Rightarrow> 'k \<Rightarrow> bool \<Rightarrow> 'k \<times> Edge
     \<Rightarrow> ('q, 'k) spState \<Rightarrow> ('q, 'k) spState" where
  "sp_relax Q isWeighted vertex hasInfiniteWeight ae st =
     (let adjacency = fst ae;
          edgeWeight = effective_weight isWeighted (snd ae);
          weight = f64_add (weight_at (weights st) vertex) (Fin edgeWeight)
      in if f64_less weight (weight_at (weights st) adjacency) \<and> \<not> hasInfiniteWeight
         then st\<lparr>weights := (weights st)(adjacency \<mapsto> weight),
                 bestPredecessors := (bestPredecessors st)(adjacency \<mapsto> vertex),
                 queue := UpdatePriority Q adjacency weight (queue st)\<rparr>
         else st)"

text \<open>
  The body of \<^verbatim>\<open>for queue.Len() > 0\<close>: the pop, whose error the source drops
  (\<^verbatim>\<open>vertex, _ := queue.Pop()\<close>), and the loop over the adjacencies.
\<close>

definition sp_visit ::
  "('q, 'k, 'k) priorityQueue \<Rightarrow> bool \<Rightarrow> 'k snapshot \<Rightarrow> ('q, 'k) spState \<Rightarrow> ('q, 'k) spState" where
  "sp_visit Q isWeighted adjMap st =
     (let vertex = fst (fst (Pop Q (queue st)));
          st' = st\<lparr>queue := snd (Pop Q (queue st))\<rparr>;
          hasInfiniteWeight = IsInf (weight_at (weights st') vertex)
      in fold (sp_relax Q isWeighted vertex hasInfiniteWeight) (edges_of adjMap vertex) st')"

partial_function (option) ShortestPath_loop ::
  "('q, 'k, 'k) priorityQueue \<Rightarrow> bool \<Rightarrow> 'k snapshot \<Rightarrow> ('q, 'k) spState
     \<Rightarrow> ('q, 'k) spState option" where
  "ShortestPath_loop Q isWeighted adjMap st =
     (if 0 < Len Q (queue st)
      then ShortestPath_loop Q isWeighted adjMap (sp_visit Q isWeighted adjMap st)
      else Some st)"

declare ShortestPath_loop.simps [code]

text \<open>The loop \<^verbatim>\<open>for current != source\<close> that builds the path.\<close>

partial_function (option) ShortestPath_walk ::
  "('k \<rightharpoonup> 'k) \<Rightarrow> 'k \<Rightarrow> 'k \<Rightarrow> 'k list \<Rightarrow> ('k error + 'k list) option" where
  "ShortestPath_walk bestPreds source current path =
     (if current \<noteq> source then
        (case bestPreds current of
           None \<Rightarrow> Some (Inl ErrTargetNotReachable)
         | Some p \<Rightarrow> ShortestPath_walk bestPreds source p (p # path))
      else Some (Inr path))"

declare ShortestPath_walk.simps [code]

definition sp_start ::
  "('q, 'k, 'k) priorityQueue \<Rightarrow> 'k snapshot \<Rightarrow> 'k \<Rightarrow> ('q, 'k) spState" where
  "sp_start Q adjMap source =
     fold (sp_init_vertex Q source) (map fst adjMap)
       \<lparr>queue = newPriorityQueue Q, weights = [source \<mapsto> Fin 0],
        bestPredecessors = Map.empty\<rparr>"

text \<open>\<^verbatim>\<open>ShortestPath\<close>; \<open>None\<close> is a run that does not return.\<close>

definition ShortestPath ::
  "('q, 'k, 'k) priorityQueue \<Rightarrow> ('k, 't) Graph \<Rightarrow> 'k \<Rightarrow> 'k
     \<Rightarrow> ('k error + 'k list) option" where
  "ShortestPath Q g source target =
     (case AdjacencyMap g of
        Inl err \<Rightarrow> Some (Inl (CouldNotGetAdjacencyMap err))
      | Inr adjMap \<Rightarrow>
          Option.bind
            (ShortestPath_loop Q (IsWeighted (Traits g)) adjMap (sp_start Q adjMap source))
            (\<lambda>st. ShortestPath_walk (bestPredecessors st) source target [target]))"

section \<open>Paths in the adjacency snapshot\<close>

text \<open>
  One step along an edge of the adjacency snapshot: \<open>w\<close> is a key of \<^verbatim>\<open>adjacencyMap[v]\<close>.
  A path is a non-empty list of hashes whose neighbours are joined by such steps; the
  forward-reachable set of \<open>v\<close> is the image of \<open>v\<close> under the reflexive transitive closure.
\<close>

definition adj_step :: "'k snapshot \<Rightarrow> ('k \<times> 'k) set" where
  "adj_step adjMap = {(v, w). w \<in> fst ` set (edges_of adjMap v)}"

definition is_path :: "'k snapshot \<Rightarrow> 'k \<Rightarrow> 'k list \<Rightarrow> 'k \<Rightarrow> bool" where
  "is_path adjMap source p target =
     (p \<noteq> [] \<and> hd p = source \<and> last p = target
      \<and> successively (\<lambda>u v. (u, v) \<in> adj_step adjMap) p)"

text \<open>
  The adjacency snapshot of a graph is a Go map (no key twice) with an entry for every
  vertex, also for one without outgoing edges: every hash that occurs as the target of an
  edge is a key of the snapshot.
\<close>

definition snapshot_closed :: "'k snapshot \<Rightarrow> bool" where
  "snapshot_closed adjMap =
     (distinct_keys adjMap
      \<and> (\<forall>es \<in> snd ` set adjMap. \<forall>w \<in> fst ` set es. w \<in> fst ` set adjMap))"

text \<open>The precondition of \<^verbatim>\<open>ShortestPath\<close>: no edge has a negative effective weight.\<close>

definition nonneg_weights :: "bool \<Rightarrow> 'k snapshot \<Rightarrow> bool" where
  "nonneg_weights isWeighted adjMap =
     (\<forall>es \<in> snd ` set adjMap. \<forall>e \<in> snd ` set es. 0 \<le> effective_weight isWeighted e)"

section \<open>FindAllPaths\<close>

text \<open>
  \<^verbatim>\<open>FindAllPaths\<close> works on texts: a Go \<^verbatim>\<open>string\<close> is a list of characters.
  \<^verbatim>\<open>strings.Contains(s, substr)\<close> holds when \<open>substr\<close> occurs in \<open>s\<close> as a contiguous
  piece.  \<^verbatim>\<open>strings.Split(s, sep)\<close>, for a separator that is not empty (the source's is
  \<^verbatim>\<open>"->"\<close>), cuts \<open>s\<close> at the occurrences of \<open>sep\<close> found from left to right.
\<close>

definition Contains :: "string \<Rightarrow> string \<Rightarrow> bool" where
  "Contains s substr = sublist substr s"

fun split_from :: "string \<Rightarrow> string \<Rightarrow> string \<Rightarrow> string list" where
  "split_from sep piece [] = [piece]"
| "split_from sep piece (c # cs) =
     (if prefix sep (c # cs)
      then piece # split_from sep [] (drop (length sep - 1) cs)
      else split_from sep (piece @ [c]) cs)"

definition Split :: "string \<Rightarrow> string \<Rightarrow> string list" where
  "Split s sep = split_from sep [] s"

definition gap :: string where
  "gap = ''->''"

text \<open>The body of \<^verbatim>\<open>for adjacency, _ := range adjacencyMap[lastVertex]\<close>.\<close>

definition fap_visit ::
  "('q, string, string) priorityQueue \<Rightarrow> string \<Rightarrow> string \<Rightarrow> string \<times> Edge
     \<Rightarrow> 'q \<times> string list \<Rightarrow> 'q \<times> string list" where
  "fap_visit Q target path ae qp =
     (let adjacency = fst ae in
      if \<not> Contains path adjacency then
        (let resultPath = path @ gap @ adjacency in
         if adjacency \<noteq> target then (Push Q resultPath (Fin 0) (fst qp), snd qp)
         else (fst qp, snd qp @ [resultPath]))
      else qp)"

text \<open>The body of the loop after a pop that succeeded.\<close>

definition fap_expand ::
  "('q, string, string) priorityQueue \<Rightarrow> string snapshot \<Rightarrow> string \<Rightarrow> string
     \<Rightarrow> 'q \<times> string list \<Rightarrow> 'q \<times> string list" where
  "fap_expand Q adjMap target path qp =
     (let vertexArray = Split path gap in
      if 0 < length vertexArray then
        (let lastVertex = last vertexArray
         in fold (fap_visit Q target path) (edges_of adjMap lastVertex) qp)
      else qp)"

partial_function (option) FindAllPaths_loop ::
  "('q, string, string) priorityQueue \<Rightarrow> string snapshot \<Rightarrow> string \<Rightarrow> 'q \<times> string list
     \<Rightarrow> (string error + string list) option" where
  "FindAllPaths_loop Q adjMap target qp =
     (if 0 < Len Q (fst qp) then
        (case snd (fst (Pop Q (fst qp))) of
           Some err \<Rightarrow> Some (Inl (PopErr err))
         | None \<Rightarrow>
             FindAllPaths_loop Q adjMap target
               (fap_expand Q adjMap target (fst (fst (Pop Q (fst qp))))
                  (snd (Pop Q (fst qp)), snd qp)))
      else Some (Inr (snd qp)))"

declare FindAllPaths_loop.simps [code]

definition FindAllPaths ::
  "('q, string, string) priorityQueue \<Rightarrow> (string, 't) Graph \<Rightarrow> string \<Rightarrow> string
     \<Rightarrow> (string error + string list) option" where
  "FindAllPaths Q g source target =
     (case AdjacencyMap g of
        Inl err \<Rightarrow> Some (Inl (CouldNotGetAdjacencyMap err))
      | Inr adjMap \<Rightarrow>
          FindAllPaths_loop Q adjMap target
            (Push Q source (Fin 0) (newPriorityQueue Q), []))"

text \<open>
  The runs of the loop of \<^verbatim>\<open>FindAllPaths\<close>: \<open>fap_run Q adjMap target qp qp'\<close> holds when the
  loop, started with queue and result list \<open>qp\<close>, comes to the head of the loop with \<open>qp'\<close>
  after some number of iterations (each with a pop that succeeded).
\<close>

inductive fap_run ::
  "('q, string, string) priorityQueue \<Rightarrow> string snapshot \<Rightarrow> string
     \<Rightarrow> 'q \<times> string list \<Rightarrow> 'q \<times> string list \<Rightarrow> bool"
  for Q adjMap target where
  start: "fap_run Q adjMap target qp qp"
| step: "fap_run Q adjMap target qp qp' \<Longrightarrow> 0 < Len Q (fst qp') \<Longrightarrow>
         snd (fst (Pop Q (fst qp'))) = None \<Longrightarrow>
         fap_run Q adjMap target qp
           (fap_expand Q adjMap target (fst (fst (Pop Q (fst qp'))))
              (snd (Pop Q (fst qp')), snd qp'))"

section \<open>Example inputs\<close>

definition intQueue :: "((int \<times> float64) list, int, int) priorityQueue" where
  "intQueue = listQueue 0"

definition intFailingQueue :: "((int \<times> float64) list, int, int) priorityQueue" where
  "intFailingQueue = failingQueue 0"

definition textQueue :: "((string \<times> float64) list, string, string) priorityQueue" where
  "textQueue = listQueue []"

definition textFailingQueue :: "((string \<times> float64) list, string, string) priorityQueue" where
  "textFailingQueue = failingQueue []"

text \<open>A directed graph with the single vertex \<open>0\<close> and no edge.\<close>

definition graph_zero :: "(int, unit) Graph" where
  "graph_zero =
     \<lparr>vertices = [(0, ())], adjacencySnapshot = [(0, [])], predecessorSnapshot = [(0, [])],
      Traits = \<lparr>IsDirected = True, IsWeighted = False\<rparr>\<rparr>"

text \<open>A directed graph with the vertices \<open>1\<close> and \<open>2\<close> and the edge from \<open>1\<close> to \<open>2\<close>.\<close>

definition graph_edge :: "(int, unit) Graph" where
  "graph_edge =
     \<lparr>vertices = [(1, ()), (2, ())],
      adjacencySnapshot = [(1, [(2, \<lparr>Weight = 0\<rparr>)]), (2, [])],
      predecessorSnapshot = [(1, []), (2, [(1, \<lparr>Weight = 0\<rparr>)])],
      Traits = \<lparr>IsDirected = True, IsWeighted = False\<rparr>\<rparr>"

text \<open>The graph of the spec's example: edges A to B, A to C, B to D, C to D.\<close>

definition graph_diamond :: "(string, unit) Graph" where
  "graph_diamond =
     \<lparr>vertices = [(''A'', ()), (''B'', ()), (''C'', ()), (''D'', ())],
      adjacencySnapshot =
        [(''A'', [(''B'', \<lparr>Weight = 0\<rparr>), (''C'', \<lparr>Weight = 0\<rparr>)]),
         (''B'', [(''D'', \<lparr>Weight = 0\<rparr>)]),
         (''C'', [(''D'', \<lparr>Weight = 0\<rparr>)]),
         (''D'', [])],
      predecessorSnapshot =
        [(''A'', []),
         (''B'', [(''A'', \<lparr>Weight = 0\<rparr>)]),
         (''C'', [(''A'', \<lparr>Weight = 0\<rparr>)]),
         (''D'', [(''B'', \<lparr>Weight = 0\<rparr>), (''C'', \<lparr>Weight = 0\<rparr>)])],
      Traits = \<lparr>IsDirected = True, IsWeighted = False\<rparr>\<rparr>"

text \<open>
  The weighted graph of the spec's example (hashes \<open>1\<close>, \<open>2\<close>, \<open>3\<close> for A, B, C): edges
  \<open>1\<close> to \<open>2\<close> of weight 1, \<open>2\<close> to \<open>3\<close> of weight 2, \<open>1\<close> to \<open>3\<close> of weight 5; and a weighted
  graph with a cycle of negative weight between \<open>2\<close> and \<open>3\<close>.
\<close>

definition graph_weighted :: "(int, unit) Graph" where
  "graph_weighted =
     \<lparr>vertices = [(1, ()), (2, ()), (3, ())],
      adjacencySnapshot =
        [(1, [(2, \<lparr>Weight = 1\<rparr>), (3, \<lparr>Weight = 5\<rparr>)]),
         (2, [(3, \<lparr>Weight = 2\<rparr>)]),
         (3, [])],
      predecessorSnapshot =
        [(1, []),
         (2, [(1, \<lparr>Weight = 1\<rparr>)]),
         (3, [(1, \<lparr>Weight = 5\<rparr>), (2, \<lparr>Weight = 2\<rparr>)])],
      Traits = \<lparr>IsDirected = True, IsWeighted = True\<rparr>\<rparr>"

definition graph_negative :: "(int, unit) Graph" where
  "graph_negative =
     \<lparr>vertices = [(1, ()), (2, ()), (3, ())],
      adjacencySnapshot =
        [(1, [(2, \<lparr>Weight = 1\<rparr>)]),
         (2, [(3, \<lparr>Weight = - 5\<rparr>)]),
         (3, [(2, \<lparr>Weight = - 5\<rparr>)])],
      predecessorSnapshot =
        [(1, []),
         (2, [(1, \<lparr>Weight = 1\<rparr>), (3, \<lparr>Weight = - 5\<rparr>)]),
         (3, [(2, \<lparr>Weight = - 5\<rparr>)])],
      Traits = \<lparr>IsDirected = True, IsWeighted = True\<rparr>\<rparr>"

text \<open>
  Graphs with text hashes: one whose hashes contain the characters of the separator but
  not the separator; one with a hash that contains the separator; one with a hash that
  occurs inside another hash.
\<close>

definition graph_dashes :: "(string, unit) Graph" where
  "graph_dashes =
     \<lparr>vertices = [(''a-'', ()), (''>b'', ()), (''c'', ())],
      adjacencySnapshot =
        [(''a-'', [(''>b'', \<lparr>Weight = 0\<rparr>)]),
         (''>b'', [(''c'', \<lparr>Weight = 0\<rparr>)]),
         (''c'', [])],
      predecessorSnapshot =
        [(''a-'', []),
         (''>b'', [(''a-'', \<lparr>Weight = 0\<rparr>)]),
         (''c'', [(''>b'', \<lparr>Weight = 0\<rparr>)])],
      Traits = \<lparr>IsDirected = True, IsWeighted = False\<rparr>\<rparr>"

definition graph_arrow :: "(string, unit) Graph" where
  "graph_arrow =
     \<lparr>vertices = [(''S'', ()), (''a->T'', ()), (''T'', ()), (''Z'', ())],
      adjacencySnapshot =
        [(''S'', [(''a->T'', \<lparr>Weight = 0\<rparr>)]),
         (''a->T'', []),
         (''T'', [(''Z'', \<lparr>Weight = 0\<rparr>)]),
         (''Z'', [])],
      predecessorSnapshot =
        [(''S'', []),
         (''a->T'', [(''S'', \<lparr>Weight = 0\<rparr>)]),
         (''T'', []),
         (''Z'', [(''T'', \<lparr>Weight = 0\<rparr>)])],
      Traits = \<lparr>IsDirected = True, IsWeighted = False\<rparr>\<rparr>"

definition graph_substring :: "(string, unit) Graph" where
  "graph_substring =
     \<lparr>vertices = [(''AB'', ()), (''A'', ()), (''C'', ())],
      adjacencySnapshot =
        [(''AB'', [(''A'', \<lparr>Weight = 0\<rparr>)]),
         (''A'', [(''C'', \<lparr>Weight = 0\<rparr>)]),
         (''C'', [])],
      predecessorSnapshot =
        [(''AB'', []),
         (''A'', [(''AB'', \<lparr>Weight = 0\<rparr>)]),
         (''C'', [(''A'', \<lparr>Weight = 0\<rparr>)])],
      Traits = \<lparr>IsDirected = True, IsWeighted = False\<rparr>\<rparr>"

section \<open>Error results\<close>

text \<open>
  C8.  For every graph whose traits declare it undirected, \<^verbatim>\<open>StronglyConnectedComponents\<close>
  returns the error for the invalid graph kind, and with it no components.
\<close>

theorem scc_undirected_fails:
  "\<not> IsDirected (Traits g) \<Longrightarrow>
     StronglyConnectedComponents zero g = Some (Done (Inl ErrInvalidGraphKind))"
  by (simp add: StronglyConnectedComponents_def)

theorem scc_undirected_fails_witness:
  "\<not> IsDirected (Traits \<lparr>vertices = [(1::int, ())], adjacencySnapshot = [(1, [])],
        predecessorSnapshot = [(1, [])], Traits = \<lparr>IsDirected = False, IsWeighted = False\<rparr>\<rparr>)
   \<and> StronglyConnectedComponents 0
        \<lparr>vertices = [(1::int, ())], adjacencySnapshot = [(1, [])],
         predecessorSnapshot = [(1, [])], Traits = \<lparr>IsDirected = False, IsWeighted = False\<rparr>\<rparr>
       = Some (Done (Inl ErrInvalidGraphKind))"
  using scc_undirected_fails [of "\<lparr>vertices = [(1::int, ())], adjacencySnapshot = [(1, [])],
        predecessorSnapshot = [(1, [])], Traits = \<lparr>IsDirected = False, IsWeighted = False\<rparr>\<rparr>" 0]
  by simp

text \<open>
  C9.  When the source or the target is absent from the graph, \<^verbatim>\<open>CreatesCycle\<close> returns an
  error that wraps the not-found error of the lookup (for the source if it is absent,
  otherwise for the target), and so no boolean.
\<close>

theorem createsCycle_absent_vertex:
  "\<not> vertex_exists g source \<or> \<not> vertex_exists g target \<Longrightarrow>
     CreatesCycle g source target =
       Inl (CouldNotGetVertex (if \<not> vertex_exists g source then source else target)
              ErrVertexNotFound)"
  by (auto simp: CreatesCycle_def Vertex_def vertex_exists_def split: option.splits)

theorem createsCycle_absent_vertex_witness:
  "\<not> vertex_exists \<lparr>vertices = [(1::int, ())], adjacencySnapshot = [(1, [])],
        predecessorSnapshot = [(1, [])],
        Traits = \<lparr>IsDirected = True, IsWeighted = False\<rparr>\<rparr> 2
   \<and> CreatesCycle \<lparr>vertices = [(1::int, ())], adjacencySnapshot = [(1, [])],
        predecessorSnapshot = [(1, [])],
        Traits = \<lparr>IsDirected = True, IsWeighted = False\<rparr>\<rparr> 1 2
       = Inl (CouldNotGetVertex 2 ErrVertexNotFound)"
  using createsCycle_absent_vertex [of "\<lparr>vertices = [(1::int, ())],
        adjacencySnapshot = [(1, [])], predecessorSnapshot = [(1, [])],
        Traits = \<lparr>IsDirected = True, IsWeighted = False\<rparr>\<rparr>" 1 2]
  by (simp add: vertex_exists_def)

section \<open>Strongly connected components: the vertex with the zero hash\<close>

text \<open>
  C4.  The components do not always partition the vertices.  The loop that pops a
  component starts with \<^verbatim>\<open>hash\<close> at the zero value of the hash type and runs while
  \<^verbatim>\<open>hash != vertexHash\<close>; for a root whose hash is that zero value it pops nothing.  On the
  directed graph with the single vertex \<open>0\<close> (integer hashes) the result is one empty
  component: the vertex \<open>0\<close> belongs to no component.
\<close>

theorem scc_zero_hash_vertex_lost:
  "StronglyConnectedComponents 0 graph_zero = Some (Done (Inr [ [] ]))"
  by code_simp

section \<open>A failing pop\<close>

lemma fap_run_loop:
  "fap_run Q adjMap target qp qp' \<Longrightarrow>
     FindAllPaths_loop Q adjMap target qp = FindAllPaths_loop Q adjMap target qp'"
proof (induction rule: fap_run.induct)
  case (start qp)
  show ?case by simp
next
  case (step qp qp')
  have "FindAllPaths_loop Q adjMap target qp' =
        FindAllPaths_loop Q adjMap target
          (fap_expand Q adjMap target (fst (fst (Pop Q (fst qp'))))
              (snd (Pop Q (fst qp')), snd qp'))"
    using step.hyps(2,3) by (subst FindAllPaths_loop.simps) simp
  with step.IH show ?case by simp
qed

text \<open>
  C5, as amended.  \<^verbatim>\<open>FindAllPaths\<close> surfaces a failing pop: for every queue
  implementation, if a run of its loop comes to the head of the loop with a queue of
  positive size whose pop fails with \<open>err\<close>, the result of \<^verbatim>\<open>FindAllPaths\<close> is that error,
  wrapped.  (\<^verbatim>\<open>ShortestPath\<close> does not: see the counterexample.)
\<close>

theorem findAllPaths_surfaces_pop_error:
  assumes "fap_run Q (adjacencySnapshot g) target
             (Push Q source (Fin 0) (newPriorityQueue Q), []) qp"
    and "0 < Len Q (fst qp)"
    and "snd (fst (Pop Q (fst qp))) = Some err"
  shows "FindAllPaths Q g source target = Some (Inl (PopErr err))"
proof -
  have "FindAllPaths_loop Q (adjacencySnapshot g) target qp = Some (Inl (PopErr err))"
    using assms(2,3) by (subst FindAllPaths_loop.simps) simp
  with fap_run_loop [OF assms(1)] show ?thesis
    by (simp add: FindAllPaths_def AdjacencyMap_def)
qed

theorem findAllPaths_surfaces_pop_error_witness:
  "fap_run textFailingQueue (adjacencySnapshot graph_diamond) ''D''
     (Push textFailingQueue ''A'' (Fin 0) (newPriorityQueue textFailingQueue), [])
     (Push textFailingQueue ''A'' (Fin 0) (newPriorityQueue textFailingQueue), [])
   \<and> 0 < Len textFailingQueue
           (Push textFailingQueue ''A'' (Fin 0) (newPriorityQueue textFailingQueue))
   \<and> snd (fst (Pop textFailingQueue
           (Push textFailingQueue ''A'' (Fin 0) (newPriorityQueue textFailingQueue))))
       = Some ErrQueueEmpty
   \<and> FindAllPaths textFailingQueue graph_diamond ''A'' ''D''
       = Some (Inl (PopErr ErrQueueEmpty))"
proof -
  have l: "0 < Len textFailingQueue
       (fst (Push textFailingQueue ''A'' (Fin 0) (newPriorityQueue textFailingQueue),
             [] :: string list))"
    by (simp add: textFailingQueue_def failingQueue_def)
  have e: "snd (fst (Pop textFailingQueue
       (fst (Push textFailingQueue ''A'' (Fin 0) (newPriorityQueue textFailingQueue),
             [] :: string list)))) = Some ErrQueueEmpty"
    by (simp add: textFailingQueue_def failingQueue_def)
  from findAllPaths_surfaces_pop_error [OF fap_run.start l e, of graph_diamond "''D''"]
    l e fap_run.start
  show ?thesis by simp
qed

text \<open>
  The claim C5 as stated fails for \<^verbatim>\<open>ShortestPath\<close>, which drops the error of the pop:
  with the queue whose pop fails, on the graph with the edge from \<open>1\<close> to \<open>2\<close>, the first
  pop of the loop fails and \<^verbatim>\<open>ShortestPath(g, 1, 1)\<close> returns the path \<open>[1]\<close> and no error.
\<close>

theorem shortestPath_drops_pop_error:
  "0 < Len intFailingQueue (queue (sp_start intFailingQueue (adjacencySnapshot graph_edge) 1))
   \<and> snd (fst (Pop intFailingQueue
                 (queue (sp_start intFailingQueue (adjacencySnapshot graph_edge) 1))))
       = Some ErrQueueEmpty
   \<and> ShortestPath intFailingQueue graph_edge 1 1 = Some (Inr [1])"
  by code_simp

section \<open>ShortestPath from a vertex to itself\<close>

lemma sp_relax_Len:
  "pq_sizes Q \<Longrightarrow> Len Q (queue (sp_relax Q w v h ae st)) = Len Q (queue st)"
  by (simp add: sp_relax_def Let_def pq_sizes_def)

lemma fold_sp_relax_Len:
  "pq_sizes Q \<Longrightarrow> Len Q (queue (fold (sp_relax Q w v h) es st)) = Len Q (queue st)"
  by (induction es arbitrary: st) (simp_all add: sp_relax_Len)

lemma sp_visit_Len:
  "pq_sizes Q \<Longrightarrow> 0 < Len Q (queue st) \<Longrightarrow>
     Len Q (queue (sp_visit Q w adjMap st)) < Len Q (queue st)"
  by (simp add: sp_visit_def Let_def fold_sp_relax_Len) (simp add: pq_sizes_def)

lemma ShortestPath_loop_returns:
  "pq_sizes Q \<Longrightarrow> \<exists>st'. ShortestPath_loop Q w adjMap st = Some st'"
proof (induction "Len Q (queue st)" arbitrary: st rule: less_induct)
  case less
  show ?case
  proof (cases "0 < Len Q (queue st)")
    case True
    from less.hyps [OF sp_visit_Len [OF less.prems True] less.prems]
    show ?thesis using True by (subst ShortestPath_loop.simps) simp
  next
    case False
    then show ?thesis by (subst ShortestPath_loop.simps) simp
  qed
qed

lemma least_entry_mem: "least_entry e es \<in> set (e # es)"
  by (induction es arbitrary: e) (auto split: if_splits)

lemma listQueue_sizes: "pq_sizes (listQueue zero)"
proof -
  have "length (remove1 (least_entry e es) (e # es)) < length (e # es)"
    for e :: "'a \<times> float64" and es
    using least_entry_mem [of e es] by (simp only: length_remove1 if_True) simp
  then show ?thesis
    by (auto simp: pq_sizes_def listQueue_def split: list.splits)
qed

text \<open>
  C10.  \<^verbatim>\<open>ShortestPath\<close> looks no vertex up.  With a queue whose pops shrink it, for every
  graph and every hash \<open>v\<close>, present in the graph or not, \<^verbatim>\<open>ShortestPath(g, v, v)\<close> returns
  the path \<open>[v]\<close> and no error.
\<close>

theorem shortestPath_same_vertex:
  assumes "pq_sizes Q"
  shows "ShortestPath Q g v v = Some (Inr [v])"
proof -
  obtain st' where "ShortestPath_loop Q (IsWeighted (Traits g)) (adjacencySnapshot g)
      (sp_start Q (adjacencySnapshot g) v) = Some st'"
    using ShortestPath_loop_returns [OF assms] by blast
  moreover have "ShortestPath_walk (bestPredecessors st') v v [v] = Some (Inr [v])"
    by (subst ShortestPath_walk.simps) simp
  ultimately show ?thesis
    by (simp add: ShortestPath_def AdjacencyMap_def)
qed

theorem shortestPath_same_vertex_witness:
  "pq_sizes intQueue \<and> \<not> vertex_exists graph_edge 7
   \<and> ShortestPath intQueue graph_edge 7 7 = Some (Inr [7])"
proof -
  have s: "pq_sizes intQueue"
    unfolding intQueue_def by (rule listQueue_sizes)
  from shortestPath_same_vertex [OF s, of graph_edge 7] s show ?thesis
    by (simp add: vertex_exists_def graph_edge_def)
qed

section \<open>CreatesCycle is backward reachability\<close>

lemma fold_push: "fold (\<lambda>a s. a # s) xs ys = rev xs @ ys"
  by (induction xs arbitrary: ys) simp_all

lemma leaves_closed_set:
  assumes "(c, t) \<in> R\<^sup>*" and "c \<in> V" and "t \<notin> V"
    and "\<forall>v\<in>V. \<forall>u. (v, u) \<in> R \<longrightarrow> u \<in> V \<union> S"
  shows "\<exists>x\<in>S. (x, t) \<in> R\<^sup>*"
  using assms
proof (induction rule: converse_rtrancl_induct)
  case base
  then show ?case by simp
next
  case (step y z)
  show ?case
  proof (cases "z \<in> V")
    case True
    with step show ?thesis by blast
  next
    case False
    with step.hyps(1) step.prems have "z \<in> S" by blast
    with step.hyps(2) show ?thesis by blast
  qed
qed

lemma CreatesCycle_loop_correct:
  "target \<notin> seen \<Longrightarrow>
   \<forall>v\<in>seen. \<forall>u. (v, u) \<in> pred_step pm \<longrightarrow> u \<in> seen \<union> set stk \<Longrightarrow>
   CreatesCycle_loop pm target stk seen
     = (\<exists>x\<in>set stk. (x, target) \<in> (pred_step pm)\<^sup>*)"
proof (induction pm target stk seen rule: CreatesCycle_loop.induct)
  case (1 pm target seen)
  show ?case by simp
next
  case (2 pm target c rest seen)
  let ?R = "pred_step pm"
  show ?case
  proof (cases "c \<in> seen")
    case True
    have cl: "\<forall>v\<in>seen. \<forall>u. (v, u) \<in> ?R \<longrightarrow> u \<in> seen \<union> set rest"
      using "2.prems"(2) True by auto
    have ih: "CreatesCycle_loop pm target rest seen
         = (\<exists>x\<in>set rest. (x, target) \<in> ?R\<^sup>*)"
      using "2.IH"(2) True "2.prems"(1) cl by simp
    have "(c, target) \<in> ?R\<^sup>* \<Longrightarrow> \<exists>x\<in>set rest. (x, target) \<in> ?R\<^sup>*"
      using leaves_closed_set [of c target ?R seen "set rest"] True "2.prems"(1) cl
      by blast
    with ih True show ?thesis by auto
  next
    case False
    show ?thesis
    proof (cases "c = target")
      case True
      with False show ?thesis by simp
    next
      case ne: False
      let ?succs = "map fst (edges_of pm c)"
      let ?stack' = "fold (\<lambda>a s. a # s) ?succs rest"
      have set': "set ?stack' = set ?succs \<union> set rest"
        by (simp add: fold_push)
      have succ: "\<And>u. (c, u) \<in> ?R \<longleftrightarrow> u \<in> set ?succs"
        by (auto simp: pred_step_def)
      have cl: "\<forall>v\<in>insert c seen. \<forall>u. (v, u) \<in> ?R \<longrightarrow> u \<in> insert c seen \<union> set ?stack'"
        using "2.prems"(2) succ set' by auto
      have ih: "CreatesCycle_loop pm target ?stack' (insert c seen)
           = (\<exists>x\<in>set ?stack'. (x, target) \<in> ?R\<^sup>*)"
        using "2.IH"(1) [OF False ne] "2.prems"(1) ne cl by simp
      have a: "(\<exists>x\<in>set ?succs. (x, target) \<in> ?R\<^sup>*) \<longleftrightarrow> (c, target) \<in> ?R\<^sup>*"
      proof
        assume "\<exists>x\<in>set ?succs. (x, target) \<in> ?R\<^sup>*"
        then obtain x where "(c, x) \<in> ?R" "(x, target) \<in> ?R\<^sup>*" using succ by blast
        then show "(c, target) \<in> ?R\<^sup>*" by (rule converse_rtrancl_into_rtrancl)
      next
        assume "(c, target) \<in> ?R\<^sup>*"
        then obtain y where "(c, y) \<in> ?R" "(y, target) \<in> ?R\<^sup>*"
          using ne by (blast elim: converse_rtranclE)
        then show "\<exists>x\<in>set ?succs. (x, target) \<in> ?R\<^sup>*"
          using succ by blast
      qed
      have "CreatesCycle_loop pm target (c # rest) seen
          = CreatesCycle_loop pm target ?stack' (insert c seen)"
        using False ne by simp
      also have "\<dots> = ((\<exists>x\<in>set ?succs. (x, target) \<in> ?R\<^sup>*) \<or> (\<exists>x\<in>set rest. (x, target) \<in> ?R\<^sup>*))"
        unfolding ih set' by blast
      also have "\<dots> = (\<exists>x\<in>set (c # rest). (x, target) \<in> ?R\<^sup>*)"
        unfolding a by simp
      finally show ?thesis .
    qed
  qed
qed

lemma edge_step_converse: "edge_step pm = (pred_step pm)\<inverse>"
  by (auto simp: edge_step_def pred_step_def)

text \<open>
  C7.  For existing vertices \<open>source\<close> and \<open>target\<close>, \<^verbatim>\<open>CreatesCycle\<close> returns true exactly
  when they are equal or \<open>target\<close> is reached from \<open>source\<close> by steps to predecessors; so it
  is true for a vertex and itself, and when it is false there is no path from \<open>target\<close> to
  \<open>source\<close> along the edges.
\<close>

theorem createsCycle_iff_backward_reachable:
  assumes "vertex_exists g source" and "vertex_exists g target"
  shows "CreatesCycle g source target
           = Inr (source = target \<or> (source, target) \<in> (pred_step (predecessorSnapshot g))\<^sup>*)
         \<and> (source = target \<longrightarrow> CreatesCycle g source target = Inr True)
         \<and> (CreatesCycle g source target = Inr False \<longrightarrow>
              (target, source) \<notin> (edge_step (predecessorSnapshot g))\<^sup>*)"
proof -
  let ?pm = "predecessorSnapshot g"
  have loop: "CreatesCycle_loop ?pm target [source] {} = ((source, target) \<in> (pred_step ?pm)\<^sup>*)"
    using CreatesCycle_loop_correct [of target "{}" ?pm "[source]"] by simp
  have main: "CreatesCycle g source target
           = Inr (source = target \<or> (source, target) \<in> (pred_step ?pm)\<^sup>*)"
    using assms loop
    by (auto simp: CreatesCycle_def Vertex_def vertex_exists_def PredecessorMap_def
             split: option.splits)
  have "(target, source) \<in> (edge_step ?pm)\<^sup>* \<longleftrightarrow> (source, target) \<in> (pred_step ?pm)\<^sup>*"
    by (simp add: edge_step_converse rtrancl_converse)
  with main show ?thesis by auto
qed

theorem createsCycle_iff_backward_reachable_witness:
  "vertex_exists graph_edge 2 \<and> vertex_exists graph_edge 1
   \<and> CreatesCycle graph_edge 2 1 = Inr True
   \<and> CreatesCycle graph_edge 1 2 = Inr False
   \<and> (2, 1) \<notin> (edge_step (predecessorSnapshot graph_edge))\<^sup>*"
proof -
  have e: "vertex_exists graph_edge 2" "vertex_exists graph_edge 1"
    by (simp_all add: vertex_exists_def graph_edge_def)
  have t: "CreatesCycle graph_edge 2 1 = Inr True"
    by code_simp
  have f: "CreatesCycle graph_edge 1 2 = Inr False"
    by code_simp
  from createsCycle_iff_backward_reachable [OF e(2) e(1)] e t f show ?thesis
    by simp
qed

section \<open>ShortestPath: reachability and shortest paths\<close>

text \<open>
  The invariant of the main loop, for a queue that behaves as \<open>pq_spec\<close> says, a snapshot
  without a key twice and non-negative effective weights.  \<open>rps\<close> lists the popped vertices, the last
  popped first; \<open>Rel\<close> holds the edges that the inner loop has handled.
\<close>

definition dist :: "('q, 'k) spState \<Rightarrow> 'k \<Rightarrow> float64" where
  "dist st v = weight_at (weights st) v"

definition queued :: "'k set \<Rightarrow> ('k \<Rightarrow> float64) \<Rightarrow> ('k \<times> float64) multiset" where
  "queued U d = image_mset (\<lambda>x. (x, d x)) (mset_set U)"

lemma queued_mem: "finite U \<Longrightarrow> (x, p) \<in># queued U d \<longleftrightarrow> x \<in> U \<and> p = d x"
  by (auto simp: queued_def)

lemma queued_remove:
  "finite U \<Longrightarrow> x \<in> U \<Longrightarrow> queued U d - {#(x, d x)#} = queued (U - {x}) d"
  by (simp add: queued_def mset_set.remove)

lemma queued_cong: "(\<And>y. y \<in> U \<Longrightarrow> d y = d' y) \<Longrightarrow> queued U d = queued U d'"
  unfolding queued_def
  by (cases "finite U") (auto intro!: image_mset_cong)

lemma queued_insert:
  "finite U \<Longrightarrow> x \<notin> U \<Longrightarrow> queued (insert x U) d = add_mset (x, d x) (queued U d)"
  by (simp add: queued_def)

lemma queued_empty: "finite U \<Longrightarrow> queued U d = {#} \<longleftrightarrow> U = {}"
  by (auto simp: queued_def mset_set_empty_iff)

lemma queued_update:
  assumes "finite U" and "w \<in> U"
  shows "add_mset (w, p) (queued U d - {#(w, d w)#}) = queued U (d(w := p))"
proof -
  have a: "insert w (U - {w}) = U" using assms(2) by auto
  have "queued (insert w (U - {w})) (d(w := p))
          = add_mset (w, (d(w := p)) w) (queued (U - {w}) (d(w := p)))"
    by (rule queued_insert) (use assms in auto)
  moreover have "queued (U - {w}) (d(w := p)) = queued (U - {w}) d"
    by (rule queued_cong) simp
  ultimately have "queued U (d(w := p)) = add_mset (w, p) (queued (U - {w}) d)"
    unfolding a by simp
  then show ?thesis
    using queued_remove [OF assms, of d] by simp
qed

fun chain_ok :: "('k \<rightharpoonup> 'k) \<Rightarrow> 'k list \<Rightarrow> bool" where
  "chain_ok bp [] = True"
| "chain_ok bp (v # rest) = ((\<forall>u. bp v = Some u \<longrightarrow> u \<in> set rest) \<and> chain_ok bp rest)"

lemma chain_ok_upd: "w \<notin> set rps \<Longrightarrow> chain_ok (bp(w \<mapsto> x)) rps = chain_ok bp rps"
  by (induction rps) auto

definition relaxed :: "bool \<Rightarrow> ('k \<Rightarrow> float64) \<Rightarrow> ('k \<times> 'k \<times> Edge) set \<Rightarrow> bool" where
  "relaxed isW d Rel =
     (\<forall>(u, w, e) \<in> Rel. d u \<noteq> PosInf \<longrightarrow>
         \<not> f64_less (f64_add (d u) (Fin (effective_weight isW e))) (d w))"

definition edges_from :: "'k snapshot \<Rightarrow> 'k set \<Rightarrow> ('k \<times> 'k \<times> Edge) set" where
  "edges_from adjMap P = {(u, w, e). u \<in> P \<and> (w, e) \<in> set (edges_of adjMap u)}"

definition sp_inv ::
  "('q \<Rightarrow> ('k \<times> float64) multiset) \<Rightarrow> 'k snapshot \<Rightarrow> bool \<Rightarrow> 'k \<Rightarrow> 'k list
     \<Rightarrow> ('k \<times> 'k \<times> Edge) set \<Rightarrow> ('q, 'k) spState \<Rightarrow> bool" where
  "sp_inv \<alpha> adjMap isW s rps Rel st =
     (distinct rps \<and> set rps \<subseteq> fst ` set adjMap
      \<and> \<alpha> (queue st) = queued (fst ` set adjMap - set rps) (dist st)
      \<and> dist st s = Fin 0
      \<and> (\<forall>v. \<not> f64_less (dist st v) (Fin 0))
      \<and> (\<forall>v u. bestPredecessors st v = Some u \<longrightarrow>
            u \<in> set rps \<and> dist st u \<noteq> PosInf \<and> v \<noteq> s
            \<and> (\<exists>e. (v, e) \<in> set (edges_of adjMap u)
                 \<and> dist st v = f64_add (dist st u) (Fin (effective_weight isW e))))
      \<and> chain_ok (bestPredecessors st) rps
      \<and> (\<forall>u \<in> set rps. \<forall>x \<in> fst ` set adjMap - set rps. \<not> f64_less (dist st x) (dist st u))
      \<and> (\<forall>u \<in> set (tl rps). \<not> f64_less (dist st (hd rps)) (dist st u))
      \<and> relaxed isW (dist st) Rel \<and> fst ` Rel \<subseteq> set rps
      \<and> (\<forall>v \<in> fst ` set adjMap. v \<noteq> s \<and> bestPredecessors st v = None
            \<longrightarrow> dist st v = PosInf)
      \<and> (\<forall>v. v \<notin> fst ` set adjMap \<longrightarrow> dist st v = Fin 0))"

lemma sp_invD:
  assumes "sp_inv \<alpha> adjMap isW s rps Rel st"
  shows "distinct rps"
    and "set rps \<subseteq> fst ` set adjMap"
    and "\<alpha> (queue st) = queued (fst ` set adjMap - set rps) (dist st)"
    and "dist st s = Fin 0"
    and "\<And>v. \<not> f64_less (dist st v) (Fin 0)"
    and "\<And>v u. bestPredecessors st v = Some u \<Longrightarrow>
            u \<in> set rps \<and> dist st u \<noteq> PosInf \<and> v \<noteq> s
            \<and> (\<exists>e. (v, e) \<in> set (edges_of adjMap u)
                 \<and> dist st v = f64_add (dist st u) (Fin (effective_weight isW e)))"
    and "chain_ok (bestPredecessors st) rps"
    and "\<And>u y. u \<in> set rps \<Longrightarrow> y \<in> fst ` set adjMap - set rps
            \<Longrightarrow> \<not> f64_less (dist st y) (dist st u)"
    and "\<And>u. u \<in> set (tl rps) \<Longrightarrow> \<not> f64_less (dist st (hd rps)) (dist st u)"
    and "relaxed isW (dist st) Rel"
    and "fst ` Rel \<subseteq> set rps"
    and "\<And>v. v \<in> fst ` set adjMap \<Longrightarrow> v \<noteq> s \<Longrightarrow> bestPredecessors st v = None
            \<Longrightarrow> dist st v = PosInf"
    and "\<And>v. v \<notin> fst ` set adjMap \<Longrightarrow> dist st v = Fin 0"
proof -
  note c = assms [unfolded sp_inv_def]
  note c1 = c [THEN conjunct1] and r1 = c [THEN conjunct2]
  note c2 = r1 [THEN conjunct1] and r2 = r1 [THEN conjunct2]
  note c3 = r2 [THEN conjunct1] and r3 = r2 [THEN conjunct2]
  note c4 = r3 [THEN conjunct1] and r4 = r3 [THEN conjunct2]
  note c5 = r4 [THEN conjunct1] and r5 = r4 [THEN conjunct2]
  note c6 = r5 [THEN conjunct1] and r6 = r5 [THEN conjunct2]
  note c7 = r6 [THEN conjunct1] and r7 = r6 [THEN conjunct2]
  note c8 = r7 [THEN conjunct1] and r8 = r7 [THEN conjunct2]
  note c9 = r8 [THEN conjunct1] and r9 = r8 [THEN conjunct2]
  note c10 = r9 [THEN conjunct1] and r10 = r9 [THEN conjunct2]
  note c11 = r10 [THEN conjunct1] and r11 = r10 [THEN conjunct2]
  note c12 = r11 [THEN conjunct1] and r12 = r11 [THEN conjunct2]
  show "distinct rps" by (rule c1)
  show "set rps \<subseteq> fst ` set adjMap" by (rule c2)
  show "\<alpha> (queue st) = queued (fst ` set adjMap - set rps) (dist st)" by (rule c3)
  show "dist st s = Fin 0" by (rule c4)
  show "\<And>v. \<not> f64_less (dist st v) (Fin 0)" using c5 by blast
  show "\<And>v u. bestPredecessors st v = Some u \<Longrightarrow>
            u \<in> set rps \<and> dist st u \<noteq> PosInf \<and> v \<noteq> s
            \<and> (\<exists>e. (v, e) \<in> set (edges_of adjMap u)
                 \<and> dist st v = f64_add (dist st u) (Fin (effective_weight isW e)))"
    using c6 by blast
  show "chain_ok (bestPredecessors st) rps" by (rule c7)
  show "\<And>u y. u \<in> set rps \<Longrightarrow> y \<in> fst ` set adjMap - set rps
            \<Longrightarrow> \<not> f64_less (dist st y) (dist st u)"
    using c8 by blast
  show "\<And>u. u \<in> set (tl rps) \<Longrightarrow> \<not> f64_less (dist st (hd rps)) (dist st u)"
    using c9 by blast
  show "relaxed isW (dist st) Rel" by (rule c10)
  show "fst ` Rel \<subseteq> set rps" by (rule c11)
  show "\<And>v. v \<in> fst ` set adjMap \<Longrightarrow> v \<noteq> s \<Longrightarrow> bestPredecessors st v = None
            \<Longrightarrow> dist st v = PosInf"
    using c12 by blast
  show "\<And>v. v \<notin> fst ` set adjMap \<Longrightarrow> dist st v = Fin 0"
    using r12 by blast
qed

lemma sp_init_fold:
  assumes Q: "pq_spec Q \<alpha>"
  shows "distinct ks \<Longrightarrow> set ks \<inter> P = {} \<Longrightarrow> finite P \<Longrightarrow>
     \<alpha> (queue st) = queued P (dist st) \<Longrightarrow> dist st s = Fin 0 \<Longrightarrow>
     (\<forall>v \<in> P. v \<noteq> s \<longrightarrow> dist st v = PosInf) \<Longrightarrow>
     (\<forall>v. \<not> f64_less (dist st v) (Fin 0)) \<Longrightarrow>
     bestPredecessors st = Map.empty \<Longrightarrow>
     (let st' = fold (sp_init_vertex Q s) ks st in
        \<alpha> (queue st') = queued (P \<union> set ks) (dist st') \<and> dist st' s = Fin 0
        \<and> (\<forall>v \<in> P \<union> set ks. v \<noteq> s \<longrightarrow> dist st' v = PosInf)
        \<and> (\<forall>v. \<not> f64_less (dist st' v) (Fin 0))
        \<and> (\<forall>v. v \<notin> set ks \<longrightarrow> dist st' v = dist st v)
        \<and> bestPredecessors st' = Map.empty)"
proof (induction ks arbitrary: st P)
  case Nil
  then show ?case by simp
next
  case (Cons k ks)
  let ?st1 = "sp_init_vertex Q s k st"
  have push: "\<And>x p q. \<alpha> (Push Q x p q) = add_mset (x, p) (\<alpha> q)"
    using Q by (simp add: pq_spec_def)
  have kP: "k \<notin> P" using Cons.prems(2) by auto
  have d1: "dist ?st1 = (if k \<noteq> s then (dist st)(k := PosInf) else dist st)"
    by (auto simp: sp_init_vertex_def Let_def dist_def weight_at_def fun_eq_iff)
  have dP: "\<And>y. y \<in> P \<Longrightarrow> dist ?st1 y = dist st y"
    using kP by (auto simp: d1)
  have q1: "\<alpha> (queue ?st1) = add_mset (k, dist ?st1 k) (\<alpha> (queue st))"
    by (auto simp: sp_init_vertex_def Let_def push dist_def)
  have "\<alpha> (queue ?st1) = queued (insert k P) (dist ?st1)"
    unfolding q1 Cons.prems(4) queued_insert [OF Cons.prems(3) kP]
    using queued_cong [of P "dist st" "dist ?st1"] dP by simp
  moreover have "dist ?st1 s = Fin 0" using Cons.prems(5) by (simp add: d1)
  moreover have "\<forall>v \<in> insert k P. v \<noteq> s \<longrightarrow> dist ?st1 v = PosInf"
    using Cons.prems(6) by (auto simp: d1)
  moreover have "\<forall>v. \<not> f64_less (dist ?st1 v) (Fin 0)"
    using Cons.prems(7) by (auto simp: d1)
  moreover have "bestPredecessors ?st1 = Map.empty"
    using Cons.prems(8) by (simp add: sp_init_vertex_def Let_def)
  moreover have "distinct ks" "set ks \<inter> insert k P = {}" "finite (insert k P)"
    using Cons.prems(1,2,3) by auto
  ultimately have "let st' = fold (sp_init_vertex Q s) ks ?st1 in
        \<alpha> (queue st') = queued (insert k P \<union> set ks) (dist st') \<and> dist st' s = Fin 0
        \<and> (\<forall>v \<in> insert k P \<union> set ks. v \<noteq> s \<longrightarrow> dist st' v = PosInf)
        \<and> (\<forall>v. \<not> f64_less (dist st' v) (Fin 0))
        \<and> (\<forall>v. v \<notin> set ks \<longrightarrow> dist st' v = dist ?st1 v)
        \<and> bestPredecessors st' = Map.empty"
    using Cons.IH [of "insert k P" ?st1] by simp
  moreover have "\<And>v. v \<noteq> k \<Longrightarrow> dist ?st1 v = dist st v"
    by (simp add: d1)
  ultimately show ?case by (simp add: Let_def)
qed

lemma sp_start_inv:
  assumes Q: "pq_spec Q \<alpha>" and d: "distinct_keys adjMap"
  shows "sp_inv \<alpha> adjMap isW s [] {} (sp_start Q adjMap s)"
proof -
  let ?st0 = "\<lparr>queue = newPriorityQueue Q, weights = [s \<mapsto> Fin 0],
        bestPredecessors = Map.empty\<rparr> :: ('a, 'b) spState"
  have e: "\<alpha> (newPriorityQueue Q) = {#}" using Q by (simp add: pq_spec_def)
  have d0: "\<And>v. dist ?st0 v = Fin 0"
    by (simp add: dist_def weight_at_def)
  have "let st' = fold (sp_init_vertex Q s) (map fst adjMap) ?st0 in
        \<alpha> (queue st') = queued ({} \<union> set (map fst adjMap)) (dist st') \<and> dist st' s = Fin 0
        \<and> (\<forall>v \<in> {} \<union> set (map fst adjMap). v \<noteq> s \<longrightarrow> dist st' v = PosInf)
        \<and> (\<forall>v. \<not> f64_less (dist st' v) (Fin 0))
        \<and> (\<forall>v. v \<notin> set (map fst adjMap) \<longrightarrow> dist st' v = dist ?st0 v)
        \<and> bestPredecessors st' = Map.empty"
    by (rule sp_init_fold [OF Q]) (use d e d0 in \<open>simp_all add: distinct_keys_def queued_def\<close>)
  then show ?thesis
    by (simp add: sp_inv_def sp_start_def Let_def relaxed_def d0)
qed


lemma edges_of_in:
  "(w, e) \<in> set (edges_of adjMap x) \<Longrightarrow> \<exists>es. (x, es) \<in> set adjMap \<and> (w, e) \<in> set es"
  by (cases "map_of adjMap x") (auto simp: edges_of_def dest: map_of_SomeD)

lemma edge_target_key:
  "snapshot_closed adjMap \<Longrightarrow> (w, e) \<in> set (edges_of adjMap x) \<Longrightarrow> w \<in> fst ` set adjMap"
  by (drule edges_of_in) (force simp: snapshot_closed_def)

lemma edge_source_key:
  "(w, e) \<in> set (edges_of adjMap x) \<Longrightarrow> x \<in> fst ` set adjMap"
  by (drule edges_of_in) force

lemma edge_nonneg:
  "nonneg_weights isW adjMap \<Longrightarrow> (w, e) \<in> set (edges_of adjMap x)
     \<Longrightarrow> 0 \<le> effective_weight isW e"
  by (drule edges_of_in) (force simp: nonneg_weights_def)

lemma f64_less_irrefl [simp]: "\<not> f64_less a a"
  by (cases a) simp_all

lemma f64_less_trans: "f64_less a b \<Longrightarrow> f64_less b c \<Longrightarrow> f64_less a c"
  by (cases a; cases b; cases c) simp_all

lemma f64_not_less_trans: "\<not> f64_less b a \<Longrightarrow> \<not> f64_less c b \<Longrightarrow> \<not> f64_less c a"
  by (cases a; cases b; cases c) simp_all

lemma sp_relax_inv:
  assumes Q: "pq_spec Q \<alpha>"
    and inv: "sp_inv \<alpha> adjMap isW s (x # ps) Rel st"
    and nn: "nonneg_weights isW adjMap"
    and e: "(w, e) \<in> set (edges_of adjMap x)"
    and h: "h = IsInf (dist st x)"
  shows "sp_inv \<alpha> adjMap isW s (x # ps) (insert (x, w, e) Rel) (sp_relax Q isW x h (w, e) st)
         \<and> dist (sp_relax Q isW x h (w, e) st) x = dist st x"
proof -
  let ?K = "fst ` set adjMap"
  let ?U = "?K - set (x # ps)"
  let ?c = "effective_weight isW e"
  let ?wt = "f64_add (dist st x) (Fin ?c)"
  let ?st' = "sp_relax Q isW x h (w, e) st"
  have c0: "0 \<le> ?c" using nn e by (rule edge_nonneg)
  note i1 = sp_invD(1) [OF inv] and i2 = sp_invD(2) [OF inv] and i3 = sp_invD(3) [OF inv]
    and i4 = sp_invD(4) [OF inv] and i5 = sp_invD(5) [OF inv] and i6 = sp_invD(6) [OF inv]
    and i7 = sp_invD(7) [OF inv] and i8 = sp_invD(8) [OF inv]
    and i10 = sp_invD(10) [OF inv] and i12 = sp_invD(11) [OF inv]
    and i11 = sp_invD(12) [OF inv] and i13 = sp_invD(13) [OF inv]
  have i9: "\<And>u. u \<in> set ps \<Longrightarrow> \<not> f64_less (dist st x) (dist st u)"
    using sp_invD(9) [OF inv] by simp
  show ?thesis
  proof (cases "f64_less ?wt (dist st w) \<and> \<not> h")
    case False
    then have same: "?st' = st"
      by (auto simp: sp_relax_def Let_def dist_def)
    have "relaxed isW (dist st) (insert (x, w, e) Rel)"
      using i10 False h by (auto simp: relaxed_def IsInf_def)
    then show ?thesis
      using inv unfolding same sp_inv_def by simp
  next
    case True
    then obtain n where n: "dist st x = Fin n"
      using h by (cases "dist st x") (auto simp: IsInf_def)
    have n0: "0 \<le> n" using i5 [of x] n by simp
    have wt: "?wt = Fin (n + ?c)" by (simp add: n)
    have less: "f64_less (Fin (n + ?c)) (dist st w)" using True wt by simp
    have wx: "w \<noteq> x" using less n c0 by auto
    have wps: "w \<notin> set ps"
    proof
      assume "w \<in> set ps"
      from i9 [OF this] n have "\<not> f64_less (Fin n) (dist st w)" by simp
      with less c0 show False by (cases "dist st w") auto
    qed
    have wK: "w \<in> ?K"
    proof (rule ccontr)
      assume "w \<notin> ?K"
      then have "dist st w = Fin 0" by (rule i13)
      with less n0 c0 show False by simp
    qed
    have wU: "w \<in> ?U" using wK wx wps by simp
    have ws: "w \<noteq> s" using less i4 n0 c0 by auto
    have st': "?st' = st\<lparr>weights := (weights st)(w \<mapsto> Fin (n + ?c)),
                 bestPredecessors := (bestPredecessors st)(w \<mapsto> x),
                 queue := UpdatePriority Q w (Fin (n + ?c)) (queue st)\<rparr>"
      using True n by (simp add: sp_relax_def Let_def dist_def)
    have d': "dist ?st' = (dist st)(w := Fin (n + ?c))"
      unfolding st' by (auto simp: dist_def weight_at_def fun_eq_iff)
    have bp': "bestPredecessors ?st' = (bestPredecessors st)(w \<mapsto> x)"
      unfolding st' by simp
    have finU: "finite ?U" by simp
    have mem: "(w, dist st w) \<in># \<alpha> (queue st)"
      unfolding i3 using wU by (simp add: queued_mem)
    have uniq: "\<forall>e \<in># \<alpha> (queue st) - {#(w, dist st w)#}. fst e \<noteq> w"
      unfolding i3 queued_remove [OF finU wU] by (auto simp: queued_def)
    have upd: "\<alpha> (UpdatePriority Q w (Fin (n + ?c)) (queue st))
        = add_mset (w, Fin (n + ?c)) (\<alpha> (queue st) - {#(w, dist st w)#})"
      using Q mem uniq unfolding pq_spec_def by blast
    have j3: "\<alpha> (queue ?st') = queued ?U (dist ?st')"
      unfolding d' using upd queued_update [OF finU wU, of "Fin (n + ?c)" "dist st"]
      by (simp add: st' i3)
    have dx: "dist ?st' x = dist st x" unfolding d' using wx by simp
    have dps: "\<And>u. u \<in> set (x # ps) \<Longrightarrow> dist ?st' u = dist st u"
      unfolding d' using wx wps by auto
    have dle: "\<And>v. \<not> f64_less (dist st v) (dist ?st' v)"
      unfolding d' using less by (cases "dist st w") auto
    have j4: "dist ?st' s = Fin 0" unfolding d' using ws i4 by simp
    have j5: "\<And>v. \<not> f64_less (dist ?st' v) (Fin 0)"
      unfolding d' using i5 n0 c0 by auto
    have j6: "\<And>v u. bestPredecessors ?st' v = Some u \<Longrightarrow>
            u \<in> set (x # ps) \<and> dist ?st' u \<noteq> PosInf \<and> v \<noteq> s
            \<and> (\<exists>e. (v, e) \<in> set (edges_of adjMap u)
                 \<and> dist ?st' v = f64_add (dist ?st' u) (Fin (effective_weight isW e)))"
    proof -
      fix v u assume a: "bestPredecessors ?st' v = Some u"
      show "u \<in> set (x # ps) \<and> dist ?st' u \<noteq> PosInf \<and> v \<noteq> s
            \<and> (\<exists>e. (v, e) \<in> set (edges_of adjMap u)
                 \<and> dist ?st' v = f64_add (dist ?st' u) (Fin (effective_weight isW e)))"
      proof (cases "v = w")
        case True
        with a have "u = x" by (simp add: bp')
        then show ?thesis
          using True ws e n dx by (auto simp: d' intro!: exI [of _ e])
      next
        case False
        with a have b: "bestPredecessors st v = Some u" by (simp add: bp')
        from i6 [OF b] have u: "u \<in> set (x # ps)" by simp
        show ?thesis using i6 [OF b] dps [OF u] False by (auto simp: d')
      qed
    qed
    have wn: "w \<notin> set (x # ps)" using wx wps by simp
    have j7: "chain_ok (bestPredecessors ?st') (x # ps)"
      unfolding bp' by (rule chain_ok_upd [THEN iffD2, OF wn i7])
    have j8: "\<And>u y. u \<in> set (x # ps) \<Longrightarrow> y \<in> ?U \<Longrightarrow>
        \<not> f64_less (dist ?st' y) (dist ?st' u)"
    proof -
      fix u y assume u: "u \<in> set (x # ps)" and y: "y \<in> ?U"
      have ux: "\<not> f64_less (dist st x) (dist st u)"
        using u i9 by auto
      show "\<not> f64_less (dist ?st' y) (dist ?st' u)"
      proof (cases "y = w")
        case True
        have "\<not> f64_less (Fin (n + ?c)) (dist st u)"
          using ux n c0 by (cases "dist st u") auto
        then show ?thesis using True dps [OF u] by (simp add: d')
      next
        case False
        then show ?thesis using i8 [OF u y] dps [OF u] by (simp add: d')
      qed
    qed
    have j9: "\<And>u. u \<in> set ps \<Longrightarrow> \<not> f64_less (dist ?st' x) (dist ?st' u)"
      using i9 dps by simp
    have j10: "relaxed isW (dist ?st') (insert (x, w, e) Rel)"
      unfolding relaxed_def
    proof (clarify)
      fix u v e'
      assume m: "(u, v, e') \<in> insert (x, w, e) Rel"
        and fin: "dist ?st' u \<noteq> PosInf"
        and l: "f64_less (f64_add (dist ?st' u) (Fin (effective_weight isW e'))) (dist ?st' v)"
      show False
      proof (cases "(u, v, e') = (x, w, e)")
        case True
        then have "u = x" "v = w" "e' = e" by simp_all
        moreover have "dist ?st' w = Fin (n + ?c)" by (simp add: d')
        ultimately show False using l dx n by simp
      next
        case False
        with m have r: "(u, v, e') \<in> Rel" by blast
        show False
        proof (cases "u = w")
          case True
          with r i12 wx wps show False by force
        next
          case False
          then have du: "dist ?st' u = dist st u" by (simp add: d')
          with fin r i10 have "\<not> f64_less (f64_add (dist st u) (Fin (effective_weight isW e'))) (dist st v)"
            by (auto simp: relaxed_def)
          moreover have "f64_less (f64_add (dist st u) (Fin (effective_weight isW e'))) (dist st v)"
            using l dle [of v] du
            by (cases "dist st v"; cases "dist ?st' v"; cases "dist st u") auto
          ultimately show False by simp
        qed
      qed
    qed
    have j11: "\<And>v. v \<in> ?K \<Longrightarrow> v \<noteq> s \<Longrightarrow> bestPredecessors ?st' v = None
        \<Longrightarrow> dist ?st' v = PosInf"
      using i11 by (auto simp: bp' d' split: if_splits)
    have j13: "\<And>v. v \<notin> ?K \<Longrightarrow> dist ?st' v = Fin 0"
      unfolding d' using i13 wK by auto
    show ?thesis
      unfolding sp_inv_def
    proof (intro conjI, goal_cases)
      case 1 show ?case by (rule i1)
    next
      case 2 show ?case by (rule i2)
    next
      case 3 show ?case by (rule j3)
    next
      case 4 show ?case by (rule j4)
    next
      case 5 show ?case using j5 by blast
    next
      case 6 show ?case using j6 by blast
    next
      case 7 show ?case by (rule j7)
    next
      case 8 show ?case using j8 by blast
    next
      case 9 show ?case using j9 by simp
    next
      case 10 show ?case by (rule j10)
    next
      case 11 show ?case using i12 by auto
    next
      case 12 show ?case using j11 by blast
    next
      case 13 show ?case using j13 by blast
    next
      case 14 show ?case by (rule dx)
    qed
  qed
qed


lemma sp_relax_fold_inv:
  assumes Q: "pq_spec Q \<alpha>"
    and nn: "nonneg_weights isW adjMap"
  shows "sp_inv \<alpha> adjMap isW s (x # ps) Rel st \<Longrightarrow> set es \<subseteq> set (edges_of adjMap x) \<Longrightarrow>
     h = IsInf (dist st x) \<Longrightarrow>
     sp_inv \<alpha> adjMap isW s (x # ps) (Rel \<union> {(x, w, e) | w e. (w, e) \<in> set es})
       (fold (sp_relax Q isW x h) es st)"
proof (induction es arbitrary: st Rel)
  case Nil
  then show ?case by simp
next
  case (Cons a es)
  obtain w e where a: "a = (w, e)" by (cases a)
  have m: "(w, e) \<in> set (edges_of adjMap x)" using Cons.prems(2) a by simp
  from sp_relax_inv [OF Q Cons.prems(1) nn m Cons.prems(3)]
  have 1: "sp_inv \<alpha> adjMap isW s (x # ps) (insert (x, w, e) Rel) (sp_relax Q isW x h (w, e) st)"
    and 2: "dist (sp_relax Q isW x h (w, e) st) x = dist st x"
    by simp_all
  have 3: "h = IsInf (dist (sp_relax Q isW x h (w, e) st) x)"
    using Cons.prems(3) 2 by simp
  have 4: "set es \<subseteq> set (edges_of adjMap x)" using Cons.prems(2) by simp
  have eq: "insert (x, w, e) Rel \<union> {(x, w, e) | w e. (w, e) \<in> set es}
      = Rel \<union> {(x, w', e') | w' e'. (w', e') \<in> set (a # es)}"
    unfolding a by auto
  from Cons.IH [OF 1 4 3] show ?case
    unfolding eq by (simp add: a)
qed

lemma size_queued: "finite U \<Longrightarrow> size (queued U d) = card U"
  by (simp add: queued_def)

lemma sp_visit_inv:
  assumes Q: "pq_spec Q \<alpha>"
    and nn: "nonneg_weights isW adjMap"
    and inv: "sp_inv \<alpha> adjMap isW s ps (edges_from adjMap (set ps)) st"
    and ne: "0 < Len Q (queue st)"
  shows "\<exists>x. x \<notin> set ps \<and> sp_inv \<alpha> adjMap isW s (x # ps) (edges_from adjMap (set (x # ps)))
               (sp_visit Q isW adjMap st)"
proof -
  let ?K = "fst ` set adjMap"
  let ?U = "?K - set ps"
  have finU: "finite ?U" by simp
  note i1 = sp_invD(1) [OF inv] and i2 = sp_invD(2) [OF inv] and i3 = sp_invD(3) [OF inv]
    and i4 = sp_invD(4) [OF inv] and i5 = sp_invD(5) [OF inv] and i6 = sp_invD(6) [OF inv]
    and i7 = sp_invD(7) [OF inv] and i8 = sp_invD(8) [OF inv]
    and i10 = sp_invD(10) [OF inv] and i11 = sp_invD(12) [OF inv]
    and i13 = sp_invD(13) [OF inv]
  have "size (\<alpha> (queue st)) = Len Q (queue st)" using Q by (simp add: pq_spec_def)
  with ne have "\<alpha> (queue st) \<noteq> {#}" by auto
  then obtain x p q' where pop: "Pop Q (queue st) = ((x, None), q')"
    and xm: "(x, p) \<in># \<alpha> (queue st)"
    and least: "\<forall>e \<in># \<alpha> (queue st). \<not> f64_less (snd e) p"
    and q': "\<alpha> q' = \<alpha> (queue st) - {#(x, p)#}"
    using Q unfolding pq_spec_def by blast
  have xU: "x \<in> ?U" and p: "p = dist st x"
    using xm unfolding i3 by (simp_all add: queued_mem)
  have min: "\<And>y. y \<in> ?U \<Longrightarrow> \<not> f64_less (dist st y) (dist st x)"
  proof -
    fix y assume "y \<in> ?U"
    then have "(y, dist st y) \<in># \<alpha> (queue st)" unfolding i3 by (simp add: queued_mem)
    with least p show "\<not> f64_less (dist st y) (dist st x)" by force
  qed
  let ?st1 = "st\<lparr>queue := q'\<rparr>"
  have d1: "dist ?st1 = dist st" by (simp add: dist_def fun_eq_iff)
  have U': "?K - set (x # ps) = ?U - {x}" by auto
  have j3: "\<alpha> (queue ?st1) = queued (?K - set (x # ps)) (dist ?st1)"
    unfolding d1 U' using q' queued_remove [OF finU xU, of "dist st"] by (simp add: p i3)
  have inv1: "sp_inv \<alpha> adjMap isW s (x # ps) (edges_from adjMap (set ps)) ?st1"
    unfolding sp_inv_def
  proof (intro conjI, goal_cases)
    case 1 show ?case using i1 xU by simp
  next
    case 2 show ?case using i2 xU by simp
  next
    case 3 show ?case by (rule j3)
  next
    case 4 show ?case using i4 by (simp add: d1)
  next
    case 5 show ?case using i5 by (simp add: d1)
  next
    case 6 show ?case using i6 by (auto simp: d1)
  next
    case 7 show ?case using i7 i6 by auto
  next
    case 8 show ?case using i8 min by (auto simp: d1)
  next
    case 9 show ?case using i8 xU by (simp add: d1)
  next
    case 10 show ?case using i10 by (simp add: d1)
  next
    case 11 show ?case by (auto simp: edges_from_def)
  next
    case 12 show ?case using i11 by (simp add: d1)
  next
    case 13 show ?case using i13 by (simp add: d1)
  qed
  have v: "sp_visit Q isW adjMap st
      = fold (sp_relax Q isW x (IsInf (dist ?st1 x))) (edges_of adjMap x) ?st1"
    by (simp add: sp_visit_def Let_def pop dist_def)
  have Rel: "edges_from adjMap (set ps) \<union> {(x, w, e) | w e. (w, e) \<in> set (edges_of adjMap x)}
      = edges_from adjMap (set (x # ps))"
    by (auto simp: edges_from_def)
  have "sp_inv \<alpha> adjMap isW s (x # ps) (edges_from adjMap (set (x # ps)))
               (sp_visit Q isW adjMap st)"
    using sp_relax_fold_inv [OF Q nn inv1 subset_refl refl] unfolding v Rel .
  with xU show ?thesis by auto
qed

lemma ShortestPath_loop_inv:
  assumes Q: "pq_spec Q \<alpha>"
    and nn: "nonneg_weights isW adjMap"
  shows "sp_inv \<alpha> adjMap isW s ps (edges_from adjMap (set ps)) st \<Longrightarrow>
     \<exists>ps' st'. ShortestPath_loop Q isW adjMap st = Some st'
        \<and> sp_inv \<alpha> adjMap isW s ps' (edges_from adjMap (set ps')) st'
        \<and> set ps' = fst ` set adjMap"
proof (induction "card (fst ` set adjMap - set ps)" arbitrary: ps st rule: less_induct)
  case less
  let ?K = "fst ` set adjMap"
  have i3: "\<alpha> (queue st) = queued (?K - set ps) (dist st)" and i2: "set ps \<subseteq> ?K"
    using less.prems unfolding sp_inv_def by simp_all
  have len: "Len Q (queue st) = card (?K - set ps)"
    using Q i3 by (simp add: pq_spec_def size_queued)
  show ?case
  proof (cases "0 < Len Q (queue st)")
    case True
    from sp_visit_inv [OF Q nn less.prems True]
    obtain x where x: "x \<notin> set ps"
      and inv': "sp_inv \<alpha> adjMap isW s (x # ps) (edges_from adjMap (set (x # ps)))
               (sp_visit Q isW adjMap st)"
      by blast
    have "x \<in> ?K" using inv' unfolding sp_inv_def by simp
    with x have "?K - set (x # ps) \<subset> ?K - set ps" by auto
    then have "card (?K - set (x # ps)) < card (?K - set ps)"
      by (intro psubset_card_mono) auto
    from less.hyps [OF this inv'] show ?thesis
      using True by (subst ShortestPath_loop.simps) simp
  next
    case False
    with len have "card (?K - set ps) = 0" by simp
    then have "?K - set ps = {}" by simp
    with i2 have "set ps = ?K" by auto
    moreover have "ShortestPath_loop Q isW adjMap st = Some st"
      using False by (subst ShortestPath_loop.simps) simp
    ultimately show ?thesis using less.prems by blast
  qed
qed


lemma is_path_rtrancl: "is_path adjMap s p v \<Longrightarrow> (s, v) \<in> (adj_step adjMap)\<^sup>*"
proof (induction p arbitrary: v rule: rev_induct)
  case Nil
  then show ?case by (simp add: is_path_def)
next
  case (snoc x xs)
  show ?case
  proof (cases "xs = []")
    case True
    with snoc.prems show ?thesis by (auto simp: is_path_def)
  next
    case False
    with snoc.prems have "is_path adjMap s xs (last xs)" and "(last xs, v) \<in> adj_step adjMap"
      by (auto simp: is_path_def successively_append_iff)
    with snoc.IH show ?thesis by (meson rtrancl.rtrancl_into_rtrancl)
  qed
qed

lemma is_path_snoc:
  "is_path adjMap s p u \<Longrightarrow> (u, v) \<in> adj_step adjMap \<Longrightarrow> is_path adjMap s (p @ [v]) v"
  by (auto simp: is_path_def successively_append_iff)

lemma sp_walk_inv:
  assumes bp: "\<forall>v u. bp v = Some u \<longrightarrow>
            d u \<noteq> PosInf
            \<and> (\<exists>e. (v, e) \<in> set (edges_of adjMap u)
                 \<and> d v = f64_add (d u) (Fin (effective_weight isW e)))"
    and d0: "d s = Fin 0"
  shows "chain_ok bp rps \<Longrightarrow> (\<forall>v \<in> set rps. v \<noteq> s \<and> bp v = None \<longrightarrow> d v = PosInf) \<Longrightarrow>
     v \<in> set rps \<Longrightarrow> d v \<noteq> PosInf \<Longrightarrow>
     \<exists>pre. ShortestPath_walk bp s v path = Some (Inr (pre @ path))
        \<and> is_path adjMap s (pre @ [v]) v
        \<and> (\<not> isW \<longrightarrow> d v = Fin (int (length pre)))"
proof (induction rps arbitrary: v path)
  case Nil
  then show ?case by simp
next
  case (Cons x ps)
  have cps: "chain_ok bp ps" and inf: "\<forall>v \<in> set ps. v \<noteq> s \<and> bp v = None \<longrightarrow> d v = PosInf"
    using Cons.prems(1,2) by simp_all
  show ?case
  proof (cases "v = s")
    case True
    have "ShortestPath_walk bp s v path = Some (Inr ([] @ path))"
      using True by (subst ShortestPath_walk.simps) simp
    moreover have "is_path adjMap s ([] @ [v]) v" using True by (simp add: is_path_def)
    moreover have "d v = Fin (int (length ([] :: 'a list)))" using True d0 by simp
    ultimately show ?thesis by blast
  next
    case vs: False
    show ?thesis
    proof (cases "v \<in> set ps")
      case True
      from Cons.IH [OF cps inf True Cons.prems(4)] show ?thesis .
    next
      case False
      with Cons.prems(3) have vx: "v = x" by simp
      have "bp v \<noteq> None" using Cons.prems(2,4) vs vx by auto
      then obtain u where u: "bp v = Some u" by blast
      have ups: "u \<in> set ps" using Cons.prems(1) u vx by simp
      from bp u obtain e where du: "d u \<noteq> PosInf"
        and e: "(v, e) \<in> set (edges_of adjMap u)"
        and dv: "d v = f64_add (d u) (Fin (effective_weight isW e))"
        by blast
      from Cons.IH [OF cps inf ups du, of "u # path"]
      obtain pre where w: "ShortestPath_walk bp s u (u # path) = Some (Inr (pre @ u # path))"
        and p: "is_path adjMap s (pre @ [u]) u"
        and len: "\<not> isW \<longrightarrow> d u = Fin (int (length pre))"
        by blast
      have "ShortestPath_walk bp s v path = Some (Inr ((pre @ [u]) @ path))"
        using vs u w by (subst ShortestPath_walk.simps) simp
      moreover have "(u, v) \<in> adj_step adjMap"
        using e by (force simp: adj_step_def)
      with p have "is_path adjMap s ((pre @ [u]) @ [v]) v" by (rule is_path_snoc)
      moreover have "\<not> isW \<longrightarrow> d v = Fin (int (length (pre @ [u])))"
        using len dv by (auto simp: effective_weight_def)
      ultimately show ?thesis by blast
    qed
  qed
qed

lemma sp_reach_finite:
  assumes rel: "relaxed isW d (edges_from adjMap (fst ` set adjMap))" and d0: "d s = Fin 0"
  shows "(s, v) \<in> (adj_step adjMap)\<^sup>* \<Longrightarrow> d v \<noteq> PosInf"
proof (induction rule: rtrancl_induct)
  case base
  show ?case using d0 by simp
next
  case (step y z)
  from step.hyps(2) obtain e where e: "(z, e) \<in> set (edges_of adjMap y)"
    by (auto simp: adj_step_def)
  then have "(y, z, e) \<in> edges_from adjMap (fst ` set adjMap)"
    using edge_source_key [OF e] by (simp add: edges_from_def)
  with rel step.IH have "\<not> f64_less (f64_add (d y) (Fin (effective_weight isW e))) (d z)"
    by (auto simp: relaxed_def)
  with step.IH show ?case by (cases "d y") auto
qed

lemma sp_dist_le_length:
  assumes rel: "relaxed False d (edges_from adjMap (fst ` set adjMap))" and d0: "d s = Fin 0"
  shows "is_path adjMap s q v \<Longrightarrow> \<not> f64_less (Fin (int (length q) - 1)) (d v)"
proof (induction q arbitrary: v rule: rev_induct)
  case Nil
  then show ?case by (simp add: is_path_def)
next
  case (snoc x xs)
  show ?case
  proof (cases "xs = []")
    case True
    with snoc.prems d0 show ?thesis by (auto simp: is_path_def)
  next
    case False
    with snoc.prems have p: "is_path adjMap s xs (last xs)"
      and st: "(last xs, v) \<in> adj_step adjMap"
      by (auto simp: is_path_def successively_append_iff)
    from st obtain e where e: "(v, e) \<in> set (edges_of adjMap (last xs))"
      by (auto simp: adj_step_def)
    then have m: "(last xs, v, e) \<in> edges_from adjMap (fst ` set adjMap)"
      using edge_source_key [OF e] by (simp add: edges_from_def)
    from snoc.IH [OF p] obtain n where n: "d (last xs) = Fin n" "n \<le> int (length xs) - 1"
      by (cases "d (last xs)") auto
    from rel m n(1) have "\<not> f64_less (Fin (n + 1)) (d v)"
      by (auto simp: relaxed_def effective_weight_def)
    with n(2) show ?thesis by (cases "d v") auto
  qed
qed


lemma sp_final:
  assumes Q: "pq_spec Q \<alpha>"
    and d: "distinct_keys adjMap"
    and nn: "nonneg_weights isW adjMap"
  shows "\<exists>ps st. ShortestPath_loop Q isW adjMap (sp_start Q adjMap s) = Some st
        \<and> sp_inv \<alpha> adjMap isW s ps (edges_from adjMap (set ps)) st
        \<and> set ps = fst ` set adjMap"
proof -
  have e: "edges_from adjMap (set []) = {}" by (simp add: edges_from_def)
  have "sp_inv \<alpha> adjMap isW s [] (edges_from adjMap (set [])) (sp_start Q adjMap s)"
    unfolding e by (rule sp_start_inv [OF Q d])
  from ShortestPath_loop_inv [OF Q nn this] show ?thesis .
qed

text \<open>
  C3, as amended.  When no edge has a negative effective weight (and the snapshot has an
  entry for every vertex), \<^verbatim>\<open>ShortestPath\<close> returns; it returns the error for an
  unreachable target exactly when \<open>target\<close> is not in the forward-reachable set of
  \<open>source\<close>, and otherwise a path from \<open>source\<close> to \<open>target\<close>.
\<close>

theorem shortestPath_unreachable_iff:
  assumes Q: "pq_spec Q \<alpha>"
    and closed: "snapshot_closed (adjacencySnapshot g)"
    and nn: "nonneg_weights (IsWeighted (Traits g)) (adjacencySnapshot g)"
  shows "\<exists>r. ShortestPath Q g source target = Some r
           \<and> (r = Inl ErrTargetNotReachable
                \<longleftrightarrow> (source, target) \<notin> (adj_step (adjacencySnapshot g))\<^sup>*)
           \<and> ((source, target) \<in> (adj_step (adjacencySnapshot g))\<^sup>*
                \<longrightarrow> (\<exists>p. r = Inr p \<and> is_path (adjacencySnapshot g) source p target))"
proof -
  let ?am = "adjacencySnapshot g" and ?w = "IsWeighted (Traits g)"
  let ?K = "fst ` set ?am"
  have dk: "distinct_keys ?am" using closed by (simp add: snapshot_closed_def)
  from sp_final [OF Q dk nn, of source]
  obtain ps st where loop: "ShortestPath_loop Q ?w ?am (sp_start Q ?am source) = Some st"
    and inv: "sp_inv \<alpha> ?am ?w source ps (edges_from ?am (set ps)) st"
    and all: "set ps = ?K"
    by blast
  let ?bp = "bestPredecessors st"
  have run: "ShortestPath Q g source target = ShortestPath_walk ?bp source target [target]"
    by (simp add: ShortestPath_def AdjacencyMap_def loop)
  note i4 = sp_invD(4) [OF inv] and i6 = sp_invD(6) [OF inv] and i7 = sp_invD(7) [OF inv]
  note i10 = sp_invD(10) [OF inv, unfolded all]
  have i11: "\<forall>v \<in> set ps. v \<noteq> source \<and> ?bp v = None \<longrightarrow> dist st v = PosInf"
    using sp_invD(12) [OF inv] all by blast
  have bp: "\<forall>v u. ?bp v = Some u \<longrightarrow> dist st u \<noteq> PosInf
            \<and> (\<exists>e. (v, e) \<in> set (edges_of ?am u)
                 \<and> dist st v = f64_add (dist st u) (Fin (effective_weight ?w e)))"
    using i6 by blast
  note walk = sp_walk_inv [OF bp i4 i7 i11]
  show ?thesis
  proof (cases "(source, target) \<in> (adj_step ?am)\<^sup>*")
    case True
    have "\<exists>p. ShortestPath_walk ?bp source target [target] = Some (Inr p)
        \<and> is_path ?am source p target"
    proof (cases "target = source")
      case True
      then have "ShortestPath_walk ?bp source target [target] = Some (Inr [target])"
        by (subst ShortestPath_walk.simps) simp
      then show ?thesis using True by (simp add: is_path_def)
    next
      case False
      with True obtain y where "(y, target) \<in> adj_step ?am"
        by (auto elim: rtranclE)
      then obtain e where "(target, e) \<in> set (edges_of ?am y)"
        by (auto simp: adj_step_def)
      then have "target \<in> set ps"
        using edge_target_key [OF closed] all by blast
      moreover have "dist st target \<noteq> PosInf"
        using sp_reach_finite [OF i10 i4 True] .
      ultimately show ?thesis using walk [of target "[target]"] by auto
    qed
    with True run show ?thesis by auto
  next
    case False
    then have ne: "target \<noteq> source" by auto
    have "?bp target = None"
    proof (rule ccontr)
      assume "?bp target \<noteq> None"
      then obtain u where u: "?bp target = Some u" by blast
      from i6 [OF u] obtain e where ups: "u \<in> set ps" and du: "dist st u \<noteq> PosInf"
        and e: "(target, e) \<in> set (edges_of ?am u)" by blast
      from walk [OF ups du, of "[]"] obtain pre where "is_path ?am source (pre @ [u]) u"
        by blast
      then have "(source, u) \<in> (adj_step ?am)\<^sup>*" by (rule is_path_rtrancl)
      moreover have "(u, target) \<in> adj_step ?am" using e by (force simp: adj_step_def)
      ultimately show False using False by (meson rtrancl.rtrancl_into_rtrancl)
    qed
    then have "ShortestPath_walk ?bp source target [target] = Some (Inl ErrTargetNotReachable)"
      using ne by (subst ShortestPath_walk.simps) simp
    with False run show ?thesis by simp
  qed
qed

lemma nonneg_unweighted: "nonneg_weights False adjMap"
  by (simp add: nonneg_weights_def effective_weight_def)

text \<open>
  C6.  On a graph whose traits declare it unweighted the effective weight of every edge is
  \<open>1\<close>, and a path that \<^verbatim>\<open>ShortestPath\<close> returns is a path from \<open>source\<close> to \<open>target\<close> with
  the least number of vertices, hence of edges, among all such paths.
\<close>

theorem shortestPath_unweighted_min_edges:
  assumes Q: "pq_spec Q \<alpha>"
    and dk: "distinct_keys (adjacencySnapshot g)"
    and unweighted: "\<not> IsWeighted (Traits g)"
    and result: "ShortestPath Q g source target = Some (Inr p)"
  shows "(\<forall>e. effective_weight (IsWeighted (Traits g)) e = 1)
         \<and> is_path (adjacencySnapshot g) source p target
         \<and> (\<forall>q. is_path (adjacencySnapshot g) source q target \<longrightarrow> length p \<le> length q)"
proof -
  let ?am = "adjacencySnapshot g"
  let ?K = "fst ` set ?am"
  have w: "IsWeighted (Traits g) = False" using unweighted by simp
  from sp_final [OF Q dk nonneg_unweighted, of source]
  obtain ps st where loop: "ShortestPath_loop Q False ?am (sp_start Q ?am source) = Some st"
    and inv: "sp_inv \<alpha> ?am False source ps (edges_from ?am (set ps)) st"
    and all: "set ps = ?K"
    by blast
  let ?bp = "bestPredecessors st"
  have run: "ShortestPath_walk ?bp source target [target] = Some (Inr p)"
    using result by (simp add: ShortestPath_def AdjacencyMap_def loop w)
  note i4 = sp_invD(4) [OF inv] and i6 = sp_invD(6) [OF inv] and i7 = sp_invD(7) [OF inv]
  note i10 = sp_invD(10) [OF inv, unfolded all]
  have i11: "\<forall>v \<in> set ps. v \<noteq> source \<and> ?bp v = None \<longrightarrow> dist st v = PosInf"
    using sp_invD(12) [OF inv] all by blast
  have bp: "\<forall>v u. ?bp v = Some u \<longrightarrow> dist st u \<noteq> PosInf
            \<and> (\<exists>e. (v, e) \<in> set (edges_of ?am u)
                 \<and> dist st v = f64_add (dist st u) (Fin (effective_weight False e)))"
    using i6 by blast
  note walk = sp_walk_inv [OF bp i4 i7 i11]
  have "is_path ?am source p target
         \<and> (\<forall>q. is_path ?am source q target \<longrightarrow> length p \<le> length q)"
  proof (cases "target = source")
    case True
    then have "ShortestPath_walk ?bp source target [target] = Some (Inr [target])"
      by (subst ShortestPath_walk.simps) simp
    with run have "p = [target]" by simp
    then show ?thesis using True
      by (auto simp: is_path_def Suc_le_eq)
  next
    case False
    have "?bp target \<noteq> None"
    proof
      assume "?bp target = None"
      then have "ShortestPath_walk ?bp source target [target] = Some (Inl ErrTargetNotReachable)"
        using False by (subst ShortestPath_walk.simps) simp
      with run show False by simp
    qed
    then obtain u where u: "?bp target = Some u" by blast
    from i6 [OF u] obtain e where du: "dist st u \<noteq> PosInf"
      and e: "(target, e) \<in> set (edges_of ?am u)"
      and dt: "dist st target = f64_add (dist st u) (Fin (effective_weight False e))"
      by blast
    have fin: "dist st target \<noteq> PosInf" using dt du by (cases "dist st u") auto
    have "dist st target \<noteq> Fin 0"
      using dt du sp_invD(5) [OF inv, of u]
      by (cases "dist st u") (auto simp: effective_weight_def)
    then have tps: "target \<in> set ps"
      using sp_invD(13) [OF inv, of target] all by blast
    from walk [OF tps fin, of "[target]"] run
    obtain pre where p: "p = pre @ [target]" and path: "is_path ?am source p target"
      and len: "dist st target = Fin (int (length pre))"
      by auto
    have "length p \<le> length q" if q: "is_path ?am source q target" for q
      using sp_dist_le_length [OF i10 i4 q] len p by simp
    with path show ?thesis by blast
  qed
  then show ?thesis using w by (simp add: effective_weight_def)
qed

lemma least_entry_min:
  "\<forall>e' \<in> set (e # es). \<not> f64_less (snd e') (snd (least_entry e es))"
proof (induction es arbitrary: e)
  case Nil
  then show ?case by simp
next
  case (Cons e1 es)
  show ?case
  proof (cases "f64_less (snd e1) (snd e)")
    case True
    have m: "\<not> f64_less (snd e1) (snd (least_entry e1 es))"
      using Cons.IH [of e1] by simp
    have "\<not> f64_less (snd e) (snd (least_entry e1 es))"
      using m True
      by (cases "snd e"; cases "snd e1"; cases "snd (least_entry e1 es)") auto
    with Cons.IH [of e1] True show ?thesis by auto
  next
    case False
    have m: "\<not> f64_less (snd e) (snd (least_entry e es))"
      using Cons.IH [of e] by simp
    have "\<not> f64_less (snd e1) (snd (least_entry e es))"
      using f64_not_less_trans [OF m False] .
    with Cons.IH [of e] False show ?thesis by auto
  qed
qed

lemma listQueue_spec: "pq_spec (listQueue zero) mset"
  unfolding pq_spec_def
proof (intro conjI allI impI)
  show "mset (newPriorityQueue (listQueue zero)) = {#}"
    by (simp add: listQueue_def)
next
  fix x :: 'a and p q
  show "mset (Push (listQueue zero) x p q) = add_mset (x, p) (mset q)"
    by (simp add: listQueue_def)
next
  fix q :: "('a \<times> float64) list"
  show "Len (listQueue zero) q = size (mset q)"
    by (simp add: listQueue_def)
next
  fix q :: "('a \<times> float64) list"
  assume "mset q \<noteq> {#}"
  then obtain e es where q: "q = e # es" by (cases q) auto
  let ?m = "least_entry e es"
  have "Pop (listQueue zero) q = ((fst ?m, None), remove1 ?m q)"
    by (simp add: listQueue_def q)
  moreover have "(fst ?m, snd ?m) \<in># mset q"
    using least_entry_mem [of e es] by (simp add: q)
  moreover have "\<forall>e' \<in># mset q. \<not> f64_less (snd e') (snd ?m)"
    using least_entry_min [of e es] by (simp add: q)
  moreover have "mset (remove1 ?m q) = mset q - {#(fst ?m, snd ?m)#}"
    by simp
  ultimately show "\<exists>x p q'. Pop (listQueue zero) q = ((x, None), q') \<and> (x, p) \<in># mset q
      \<and> (\<forall>e \<in># mset q. \<not> f64_less (snd e) p) \<and> mset q' = mset q - {#(x, p)#}"
    by blast
next
  fix x :: 'a and p p0 :: float64 and q :: "('a \<times> float64) list"
  assume a: "(x, p0) \<in># mset q \<and> (\<forall>e \<in># mset q - {#(x, p0)#}. fst e \<noteq> x)"
  let ?f = "\<lambda>e. if fst e = x then (x, p) else e"
  let ?M = "mset q - {#(x, p0)#}"
  have split: "mset q = add_mset (x, p0) ?M" using a by simp
  have "image_mset ?f ?M = ?M"
    using a by (intro multiset.map_ident_strong) auto
  then have "image_mset ?f (mset q) = add_mset (x, p) ?M"
    by (subst split) simp
  then show "mset (UpdatePriority (listQueue zero) x p q) = add_mset (x, p) ?M"
    by (simp add: listQueue_def)
qed

lemma ShortestPath_walk_cycle_aux:
  assumes cyc: "bp a = Some b" "bp b = Some a" "s \<noteq> a" "s \<noteq> b"
    and run: "ShortestPath_walk bp0 s0 cur0 path0 = Some r0"
  shows "\<not> (bp0 = bp \<and> s0 = s \<and> (cur0 = a \<or> cur0 = b))"
proof (rule ShortestPath_walk.raw_induct
    [rotated, where P = "\<lambda>bp' s' cur path r. \<not> (bp' = bp \<and> s' = s \<and> (cur = a \<or> cur = b))",
     OF run], goal_cases)
  case (1 walk bp' s' cur path' r)
  show ?case
  proof
    assume c: "bp' = bp \<and> s' = s \<and> (cur = a \<or> cur = b)"
    then have "\<exists>nxt. (nxt = a \<or> nxt = b) \<and> walk bp s nxt (nxt # path') = Some r"
      using 1(2) cyc by (auto split: if_splits)
    with 1(1) show False by blast
  qed
qed

lemma ShortestPath_walk_cycle:
  assumes "bp a = Some b" and "bp b = Some a" and "s \<noteq> a" and "s \<noteq> b"
  shows "ShortestPath_walk bp s a path = None"
proof (cases "ShortestPath_walk bp s a path")
  case None
  then show ?thesis .
next
  case (Some r)
  from ShortestPath_walk_cycle_aux [OF assms Some] show ?thesis by simp
qed

lemma intQueue_spec: "pq_spec intQueue mset"
  unfolding intQueue_def by (rule listQueue_spec)

lemma textQueue_spec: "pq_spec textQueue mset"
  unfolding textQueue_def by (rule listQueue_spec)

theorem shortestPath_unreachable_iff_witness:
  "pq_spec intQueue mset
   \<and> snapshot_closed (adjacencySnapshot graph_weighted)
   \<and> nonneg_weights (IsWeighted (Traits graph_weighted)) (adjacencySnapshot graph_weighted)
   \<and> ShortestPath intQueue graph_weighted 1 3 = Some (Inr [1, 2, 3])
   \<and> (1, 3) \<in> (adj_step (adjacencySnapshot graph_weighted))\<^sup>*
   \<and> ShortestPath intQueue graph_weighted 3 1 = Some (Inl ErrTargetNotReachable)
   \<and> (3, 1) \<notin> (adj_step (adjacencySnapshot graph_weighted))\<^sup>*"
proof -
  have c: "snapshot_closed (adjacencySnapshot graph_weighted)"
    by (simp add: snapshot_closed_def distinct_keys_def graph_weighted_def)
  have n: "nonneg_weights (IsWeighted (Traits graph_weighted)) (adjacencySnapshot graph_weighted)"
    by (simp add: nonneg_weights_def effective_weight_def graph_weighted_def)
  have r1: "ShortestPath intQueue graph_weighted 1 3 = Some (Inr [1, 2, 3])"
    by code_simp
  have r2: "ShortestPath intQueue graph_weighted 3 1 = Some (Inl ErrTargetNotReachable)"
    by code_simp
  from shortestPath_unreachable_iff [OF intQueue_spec c n, of 1 3] r1
  have "(1, 3) \<in> (adj_step (adjacencySnapshot graph_weighted))\<^sup>*" by auto
  moreover from shortestPath_unreachable_iff [OF intQueue_spec c n, of 3 1] r2
  have "(3, 1) \<notin> (adj_step (adjacencySnapshot graph_weighted))\<^sup>*" by auto
  ultimately show ?thesis using intQueue_spec c n r1 r2 by simp
qed

text \<open>
  The claim C3 as stated, for every graph, fails on a weighted graph with a cycle of
  negative weight: on \<open>graph_negative\<close> the vertex \<open>2\<close> is reachable from \<open>1\<close>, the best
  predecessors of \<open>2\<close> and \<open>3\<close> end up pointing at each other, and the loop that builds the
  path never reaches the source: \<^verbatim>\<open>ShortestPath(g, 1, 2)\<close> does not return.
\<close>

theorem shortestPath_negative_cycle_diverges:
  "(1, 2) \<in> (adj_step (adjacencySnapshot graph_negative))\<^sup>*
   \<and> ShortestPath intQueue graph_negative 1 2 = None"
proof -
  let ?am = "adjacencySnapshot graph_negative"
  have "(1, 2) \<in> adj_step ?am"
    by (simp add: adj_step_def edges_of_def graph_negative_def)
  then have reach: "(1, 2) \<in> (adj_step ?am)\<^sup>*" by (rule r_into_rtrancl)
  have ev: "map_option (\<lambda>st. (bestPredecessors st 2, bestPredecessors st 3))
          (ShortestPath_loop intQueue (IsWeighted (Traits graph_negative)) ?am
             (sp_start intQueue ?am 1))
        = Some (Some 3, Some 2)"
    by code_simp
  then obtain st where loop: "ShortestPath_loop intQueue (IsWeighted (Traits graph_negative)) ?am
             (sp_start intQueue ?am 1) = Some st"
    and bp: "bestPredecessors st 2 = Some 3" "bestPredecessors st 3 = Some 2"
    by auto
  have "ShortestPath_walk (bestPredecessors st) 1 2 [2] = None"
    by (rule ShortestPath_walk_cycle [OF bp]) simp_all
  then have "ShortestPath intQueue graph_negative 1 2 = None"
    by (simp add: ShortestPath_def AdjacencyMap_def loop)
  with reach show ?thesis by simp
qed

theorem shortestPath_unweighted_min_edges_witness:
  "pq_spec textQueue mset
   \<and> distinct_keys (adjacencySnapshot graph_diamond)
   \<and> \<not> IsWeighted (Traits graph_diamond)
   \<and> ShortestPath textQueue graph_diamond ''A'' ''D'' = Some (Inr [''A'', ''B'', ''D''])
   \<and> is_path (adjacencySnapshot graph_diamond) ''A'' [''A'', ''B'', ''D''] ''D''
   \<and> \<not> (\<exists>q. is_path (adjacencySnapshot graph_diamond) ''A'' q ''D'' \<and> length q < 3)"
proof -
  have c: "distinct_keys (adjacencySnapshot graph_diamond)"
    by (simp add: distinct_keys_def graph_diamond_def)
  have u: "\<not> IsWeighted (Traits graph_diamond)"
    by (simp add: graph_diamond_def)
  have r: "ShortestPath textQueue graph_diamond ''A'' ''D'' = Some (Inr [''A'', ''B'', ''D''])"
    by code_simp
  from shortestPath_unweighted_min_edges [OF textQueue_spec c u r]
  have "is_path (adjacencySnapshot graph_diamond) ''A'' [''A'', ''B'', ''D''] ''D''"
    and "\<forall>q. is_path (adjacencySnapshot graph_diamond) ''A'' q ''D''
           \<longrightarrow> length [''A'', ''B'', ''D''] \<le> length q"
    by blast+
  then show ?thesis using textQueue_spec c u r by auto
qed

section \<open>FindAllPaths: the texts it returns\<close>

text \<open>
  The text that \<^verbatim>\<open>FindAllPaths\<close> builds for a sequence of hashes: the hashes joined by the
  separator.  \<open>hashes_of\<close> collects the hashes of a snapshot (its keys and the targets of
  its edges).  A simple path has no vertex twice and at least one edge.  \<open>fap_gen\<close>
  describes what the loop derives from a partial path \<open>vs\<close>: the complete paths that the
  code's test \<^verbatim>\<open>!strings.Contains(path, adjacency)\<close> lets it reach.
\<close>

fun join_path :: "string list \<Rightarrow> string" where
  "join_path [] = []"
| "join_path [v] = v"
| "join_path (v # w # vs) = v @ gap @ join_path (w # vs)"

definition hashes_of :: "'k snapshot \<Rightarrow> 'k set" where
  "hashes_of adjMap = fst ` set adjMap \<union> (\<Union>es \<in> snd ` set adjMap. fst ` set es)"

definition separator_free :: "string set \<Rightarrow> bool" where
  "separator_free H = (\<forall>h \<in> H. \<not> Contains h gap)"

definition simple_path :: "'k snapshot \<Rightarrow> 'k \<Rightarrow> 'k list \<Rightarrow> 'k \<Rightarrow> bool" where
  "simple_path adjMap source p target =
     (is_path adjMap source p target \<and> distinct p \<and> 2 \<le> length p)"

inductive fap_gen :: "string snapshot \<Rightarrow> string \<Rightarrow> string list \<Rightarrow> string list \<Rightarrow> bool"
  for adjMap target where
  found: "a \<in> fst ` set (edges_of adjMap (last vs)) \<Longrightarrow> \<not> Contains (join_path vs) a \<Longrightarrow>
          a = target \<Longrightarrow> fap_gen adjMap target vs (vs @ [a])"
| pushed: "a \<in> fst ` set (edges_of adjMap (last vs)) \<Longrightarrow> \<not> Contains (join_path vs) a \<Longrightarrow>
          a \<noteq> target \<Longrightarrow> fap_gen adjMap target (vs @ [a]) ws \<Longrightarrow>
          fap_gen adjMap target vs ws"

definition allowed_adj :: "string list \<Rightarrow> string edges \<Rightarrow> string list" where
  "allowed_adj vs es = filter (\<lambda>a. \<not> Contains (join_path vs) a) (map fst es)"

definition fap_pushed :: "string list \<Rightarrow> string \<Rightarrow> string edges \<Rightarrow> string list list" where
  "fap_pushed vs target es = map (\<lambda>a. vs @ [a]) (filter (\<lambda>a. a \<noteq> target) (allowed_adj vs es))"

definition fap_found :: "string list \<Rightarrow> string \<Rightarrow> string edges \<Rightarrow> string list list" where
  "fap_found vs target es = map (\<lambda>a. vs @ [a]) (filter (\<lambda>a. a = target) (allowed_adj vs es))"

lemma join_path_snoc: "vs \<noteq> [] \<Longrightarrow> join_path (vs @ [a]) = join_path vs @ gap @ a"
  by (induction vs rule: join_path.induct) simp_all

lemma elem_sublist_join: "a \<in> set vs \<Longrightarrow> sublist a (join_path vs)"
proof (induction vs rule: join_path.induct)
  case 1
  then show ?case by simp
next
  case (2 v)
  then show ?case by simp
next
  case (3 v w vs)
  show ?case
  proof (cases "a = v")
    case True
    then show ?thesis by simp
  next
    case False
    with 3 have "sublist a (join_path (w # vs))" by simp
    then obtain ps ss where "join_path (w # vs) = ps @ a @ ss" by (auto simp: sublist_def)
    then have "join_path (v # w # vs) = (v @ gap @ ps) @ a @ ss" by simp
    then show ?thesis unfolding sublist_def by blast
  qed
qed

lemma split_no_gap: "\<not> sublist gap h \<Longrightarrow> split_from gap piece h = [piece @ h]"
proof (induction h arbitrary: piece)
  case Nil
  show ?case by simp
next
  case (Cons c cs)
  from Cons.prems have "\<not> prefix gap (c # cs)" and "\<not> sublist gap cs"
    by (auto simp: sublist_Cons_right)
  with Cons.IH [of "piece @ [c]"] show ?case by simp
qed

lemma split_at_gap:
  "\<not> sublist gap h \<Longrightarrow>
     split_from gap piece (h @ gap @ rest) = (piece @ h) # split_from gap [] rest"
proof (induction h arbitrary: piece)
  case Nil
  show ?case by (simp add: gap_def)
next
  case (Cons c cs)
  from Cons.prems have np: "\<not> prefix gap (c # cs)" and ns: "\<not> sublist gap cs"
    by (auto simp: sublist_Cons_right)
  have "\<not> prefix gap (c # cs @ gap @ rest)"
    using np by (cases cs) (auto simp: gap_def)
  with Cons.IH [OF ns, of "piece @ [c]"] show ?case by simp
qed

lemma Split_join_path:
  "vs \<noteq> [] \<Longrightarrow> \<forall>v \<in> set vs. \<not> sublist gap v \<Longrightarrow> Split (join_path vs) gap = vs"
proof (induction vs rule: join_path.induct)
  case 1
  then show ?case by simp
next
  case (2 v)
  then show ?case by (simp add: Split_def split_no_gap)
next
  case (3 v w vs)
  then have "Split (join_path (w # vs)) gap = w # vs" by simp
  with 3 show ?case by (simp add: Split_def split_at_gap)
qed


definition path_items :: "string list multiset \<Rightarrow> (string \<times> float64) multiset" where
  "path_items M = image_mset (\<lambda>vs. (join_path vs, Fin 0)) M"

lemma fap_visit_fold:
  assumes Q: "pq_spec Q \<alpha>" and ne: "vs \<noteq> []"
  shows "\<alpha> (fst (fold (fap_visit Q target (join_path vs)) es (q, paths)))
           = \<alpha> q + path_items (mset (fap_pushed vs target es))
         \<and> snd (fold (fap_visit Q target (join_path vs)) es (q, paths))
           = paths @ map join_path (fap_found vs target es)"
proof (induction es arbitrary: q paths)
  case Nil
  show ?case by (simp add: fap_pushed_def fap_found_def allowed_adj_def path_items_def)
next
  case (Cons ae es)
  have push: "\<And>x p q. \<alpha> (Push Q x p q) = add_mset (x, p) (\<alpha> q)"
    using Q by (simp add: pq_spec_def)
  let ?a = "fst ae"
  show ?case
  proof (cases "Contains (join_path vs) ?a")
    case True
    then have "fap_visit Q target (join_path vs) ae (q, paths) = (q, paths)"
      by (simp add: fap_visit_def)
    moreover have "fap_pushed vs target (ae # es) = fap_pushed vs target es"
      "fap_found vs target (ae # es) = fap_found vs target es"
      using True by (simp_all add: fap_pushed_def fap_found_def allowed_adj_def)
    ultimately show ?thesis using Cons.IH [of q paths] by simp
  next
    case False
    show ?thesis
    proof (cases "?a = target")
      case True
      have "fap_visit Q target (join_path vs) ae (q, paths)
          = (q, paths @ [join_path (vs @ [?a])])"
        using False True ne by (simp add: fap_visit_def Let_def join_path_snoc)
      moreover have "fap_pushed vs target (ae # es) = fap_pushed vs target es"
        "fap_found vs target (ae # es) = (vs @ [?a]) # fap_found vs target es"
        using False True by (simp_all add: fap_pushed_def fap_found_def allowed_adj_def)
      ultimately show ?thesis
        using Cons.IH [of q "paths @ [join_path (vs @ [?a])]"] by simp
    next
      case ne_t: False
      have "fap_visit Q target (join_path vs) ae (q, paths)
          = (Push Q (join_path (vs @ [?a])) (Fin 0) q, paths)"
        using False ne_t ne by (simp add: fap_visit_def Let_def join_path_snoc)
      moreover have "fap_pushed vs target (ae # es) = (vs @ [?a]) # fap_pushed vs target es"
        "fap_found vs target (ae # es) = fap_found vs target es"
        using False ne_t by (simp_all add: fap_pushed_def fap_found_def allowed_adj_def)
      ultimately show ?thesis
        using Cons.IH [of "Push Q (join_path (vs @ [?a])) (Fin 0) q" paths]
        by (simp add: push path_items_def)
    qed
  qed
qed

lemma fap_gen_unfold:
  "{ws. fap_gen adjMap target vs ws}
     = set (fap_found vs target (edges_of adjMap (last vs)))
       \<union> (\<Union>c \<in> set (fap_pushed vs target (edges_of adjMap (last vs))).
             {ws. fap_gen adjMap target c ws})"
  (is "?L = ?F \<union> ?P")
proof (intro set_eqI iffI)
  fix ws assume "ws \<in> ?L"
  then have "fap_gen adjMap target vs ws" by simp
  then show "ws \<in> ?F \<union> ?P"
  proof (cases rule: fap_gen.cases)
    case (found a)
    then have "ws \<in> ?F" by (auto simp: fap_found_def allowed_adj_def)
    then show ?thesis by simp
  next
    case (pushed a)
    then have "vs @ [a] \<in> set (fap_pushed vs target (edges_of adjMap (last vs)))"
      by (auto simp: fap_pushed_def allowed_adj_def)
    with pushed(4) have "ws \<in> ?P" by blast
    then show ?thesis by simp
  qed
next
  fix ws assume "ws \<in> ?F \<union> ?P"
  then show "ws \<in> ?L"
  proof
    assume "ws \<in> ?F"
    then show ?thesis
      by (auto simp: fap_found_def allowed_adj_def intro!: fap_gen.found)
  next
    assume "ws \<in> ?P"
    then obtain a where "a \<in> fst ` set (edges_of adjMap (last vs))"
      "\<not> Contains (join_path vs) a" "a \<noteq> target" "fap_gen adjMap target (vs @ [a]) ws"
      by (auto simp: fap_pushed_def allowed_adj_def)
    then show ?thesis by (auto intro: fap_gen.pushed)
  qed
qed

definition good_partial :: "string set \<Rightarrow> string list \<Rightarrow> bool" where
  "good_partial H vs = (vs \<noteq> [] \<and> distinct vs \<and> set vs \<subseteq> H)"

lemma good_partial_length: "finite H \<Longrightarrow> good_partial H vs \<Longrightarrow> length vs \<le> card H"
  unfolding good_partial_def
  by (metis card_mono distinct_card)

lemma fap_wf:
  "wf (inv_image (mult less_than) (image_mset (\<lambda>vs :: string list. card H - length vs)))"
  by (intro wf_inv_image wf_mult wf_less_than)

lemma edge_in_hashes:
  "a \<in> fst ` set (edges_of adjMap v) \<Longrightarrow> a \<in> hashes_of adjMap"
proof -
  assume "a \<in> fst ` set (edges_of adjMap v)"
  then obtain e where "(a, e) \<in> set (edges_of adjMap v)" by auto
  then obtain es where "(v, es) \<in> set adjMap" "(a, e) \<in> set es"
    by (cases "map_of adjMap v") (auto simp: edges_of_def dest: map_of_SomeD)
  then show ?thesis by (force simp: hashes_of_def)
qed

lemma fap_pushed_good:
  assumes g: "good_partial H vs" and H: "hashes_of adjMap \<subseteq> H"
    and c: "c \<in> set (fap_pushed vs target (edges_of adjMap (last vs)))"
  shows "good_partial H c \<and> length c = Suc (length vs)"
proof -
  from c obtain a where a: "a \<in> fst ` set (edges_of adjMap (last vs))"
    and n: "\<not> Contains (join_path vs) a" and c': "c = vs @ [a]"
    by (auto simp: fap_pushed_def allowed_adj_def)
  have "a \<notin> set vs" using n elem_sublist_join [of a vs] by (auto simp: Contains_def)
  moreover have "a \<in> H" using edge_in_hashes [OF a] H by auto
  ultimately show ?thesis using g c' by (simp add: good_partial_def)
qed


lemma path_items_mem:
  "(x, p) \<in># path_items M \<Longrightarrow> \<exists>vs. vs \<in># M \<and> x = join_path vs \<and> p = Fin 0"
  by (auto simp: path_items_def)

lemma path_items_remove:
  "vs \<in># M \<Longrightarrow> path_items M - {#(join_path vs, Fin 0)#} = path_items (M - {#vs#})"
  by (auto simp: path_items_def image_mset_Diff)

lemma fap_loop_correct:
  assumes Q: "pq_spec Q \<alpha>" and fin: "finite H" and H: "hashes_of adjMap \<subseteq> H"
    and sf: "separator_free H"
  shows "\<alpha> q = path_items M \<Longrightarrow> (\<forall>vs \<in># M. good_partial H vs) \<Longrightarrow>
     \<exists>paths'. FindAllPaths_loop Q adjMap target (q, paths) = Some (Inr paths')
        \<and> set paths' = set paths \<union> join_path ` {ws. \<exists>vs \<in># M. fap_gen adjMap target vs ws}"
proof (induction M arbitrary: q paths rule: wf_induct_rule [OF fap_wf [of H]])
  case (1 M)
  have len: "Len Q q = size M"
    using Q "1.prems"(1) by (simp add: pq_spec_def path_items_def)
  show ?case
  proof (cases "M = {#}")
    case True
    then have "FindAllPaths_loop Q adjMap target (q, paths) = Some (Inr paths)"
      using len by (subst FindAllPaths_loop.simps) simp
    with True show ?thesis by simp
  next
    case False
    then have "\<alpha> q \<noteq> {#}" using "1.prems"(1) by (simp add: path_items_def)
    then obtain x p q' where pop: "Pop Q q = ((x, None), q')"
      and xm: "(x, p) \<in># \<alpha> q" and q': "\<alpha> q' = \<alpha> q - {#(x, p)#}"
      using Q unfolding pq_spec_def by blast
    from xm obtain vs where vs: "vs \<in># M" and x: "x = join_path vs" and p: "p = Fin 0"
      unfolding "1.prems"(1) by (blast dest: path_items_mem)
    let ?M0 = "M - {#vs#}"
    have M: "M = add_mset vs ?M0" using vs by simp
    have g: "good_partial H vs" using "1.prems"(2) vs by blast
    then have ne: "vs \<noteq> []" and sub: "set vs \<subseteq> H" by (simp_all add: good_partial_def)
    have "\<forall>v \<in> set vs. \<not> sublist gap v"
      using sf sub by (auto simp: separator_free_def Contains_def)
    then have split: "Split (join_path vs) gap = vs" using ne by (simp add: Split_join_path)
    let ?es = "edges_of adjMap (last vs)"
    let ?kids = "fap_pushed vs target ?es"
    let ?done = "fap_found vs target ?es"
    let ?r = "fold (fap_visit Q target (join_path vs)) ?es (q', paths)"
    have exp: "fap_expand Q adjMap target x (q', paths) = ?r"
      using ne by (simp add: fap_expand_def Let_def x split)
    have q0: "\<alpha> q' = path_items ?M0"
      unfolding q' "1.prems"(1) x p by (rule path_items_remove [OF vs])
    let ?M' = "?M0 + mset ?kids"
    from fap_visit_fold [OF Q ne, of target ?es q' paths]
    have a': "\<alpha> (fst ?r) = path_items ?M'"
      and p': "snd ?r = paths @ map join_path ?done"
      by (simp_all add: q0 path_items_def)
    have kids: "\<And>c. c \<in> set ?kids \<Longrightarrow> good_partial H c \<and> length c = Suc (length vs)"
      using fap_pushed_good [OF g H] by blast
    have good': "\<forall>c \<in># ?M'. good_partial H c"
      using "1.prems"(2) kids by (auto dest: in_diffD)
    let ?m = "\<lambda>vs :: string list. card H - length vs"
    have dec: "(?M', M) \<in> inv_image (mult less_than) (image_mset ?m)"
    proof -
      have "\<forall>k \<in> set_mset (image_mset ?m (mset ?kids)).
              \<exists>j \<in> set_mset {#?m vs#}. (k, j) \<in> less_than"
      proof
        fix k assume "k \<in> set_mset (image_mset ?m (mset ?kids))"
        then obtain c where c: "c \<in> set ?kids" and k: "k = ?m c" by auto
        from kids [OF c] good_partial_length [OF fin, of c]
        have "length c = Suc (length vs)" "length c \<le> card H" by simp_all
        then show "\<exists>j \<in> set_mset {#?m vs#}. (k, j) \<in> less_than"
          unfolding k by simp
      qed
      then have "(image_mset ?m ?M0 + image_mset ?m (mset ?kids),
                  image_mset ?m ?M0 + {#?m vs#}) \<in> mult less_than"
        by (intro one_step_implies_mult) simp_all
      moreover have "image_mset ?m M = image_mset ?m ?M0 + {#?m vs#}"
        by (subst M) simp
      ultimately show ?thesis by simp
    qed
    from "1.IH" [OF dec a' good', of "snd ?r"]
    obtain paths' where r: "FindAllPaths_loop Q adjMap target ?r = Some (Inr paths')"
      and res: "set paths' = set (snd ?r)
          \<union> join_path ` {ws. \<exists>c \<in># ?M'. fap_gen adjMap target c ws}"
      by auto
    have loop: "FindAllPaths_loop Q adjMap target (q, paths) = Some (Inr paths')"
      using False len r
      by (subst FindAllPaths_loop.simps) (simp add: pop exp [symmetric])
    have "{ws. \<exists>c \<in># M. fap_gen adjMap target c ws}
        = {ws. fap_gen adjMap target vs ws} \<union> {ws. \<exists>c \<in># ?M0. fap_gen adjMap target c ws}"
      by (subst M) auto
    also have "\<dots> = set ?done \<union> (\<Union>c \<in> set ?kids. {ws. fap_gen adjMap target c ws})
        \<union> {ws. \<exists>c \<in># ?M0. fap_gen adjMap target c ws}"
      by (subst fap_gen_unfold) simp
    also have "\<dots> = set ?done \<union> {ws. \<exists>c \<in># ?M'. fap_gen adjMap target c ws}"
      by auto
    finally have "set paths \<union> join_path ` {ws. \<exists>c \<in># M. fap_gen adjMap target c ws}
        = set (snd ?r) \<union> join_path ` {ws. \<exists>c \<in># ?M'. fap_gen adjMap target c ws}"
      unfolding p' by (simp add: image_Un Un_assoc)
    with loop res show ?thesis by simp
  qed
qed


lemma fap_gen_simple:
  "fap_gen adjMap target vs ws \<Longrightarrow> vs \<noteq> [] \<Longrightarrow> hd vs = source \<Longrightarrow> distinct vs \<Longrightarrow>
     successively (\<lambda>u v. (u, v) \<in> adj_step adjMap) vs \<Longrightarrow>
     simple_path adjMap source ws target"
proof (induction rule: fap_gen.induct)
  case (found a vs)
  have "a \<notin> set vs"
    using found.hyps(2) elem_sublist_join [of a vs] by (auto simp: Contains_def)
  moreover have "(last vs, a) \<in> adj_step adjMap"
    using found.hyps(1) by (simp add: adj_step_def)
  moreover have "Suc 0 \<le> length vs" using found.prems(1) by (cases vs) simp_all
  ultimately show ?case
    using found by (auto simp: simple_path_def is_path_def successively_append_iff)
next
  case (pushed a vs ws)
  have "a \<notin> set vs"
    using pushed.hyps(2) elem_sublist_join [of a vs] by (auto simp: Contains_def)
  moreover have "(last vs, a) \<in> adj_step adjMap"
    using pushed.hyps(1) by (simp add: adj_step_def)
  ultimately show ?case
    using pushed.prems by (intro pushed.IH) (auto simp: successively_append_iff)
qed

lemma path_vertices:
  "successively (\<lambda>u v. (u, v) \<in> adj_step adjMap) p \<Longrightarrow> set (tl p) \<subseteq> hashes_of adjMap"
proof (induction p rule: induct_list012)
  case 1
  show ?case by simp
next
  case (2 x)
  show ?case by simp
next
  case (3 x y zs)
  then have "(x, y) \<in> adj_step adjMap" and "set zs \<subseteq> hashes_of adjMap" by simp_all
  moreover from this(1) have "y \<in> hashes_of adjMap"
    by (auto simp: adj_step_def intro: edge_in_hashes)
  ultimately show ?case by simp
qed

lemma fap_start:
  assumes Q: "pq_spec Q \<alpha>"
  shows "\<alpha> (Push Q source (Fin 0) (newPriorityQueue Q)) = path_items {#[source]#}"
  using Q by (simp add: pq_spec_def path_items_def)

lemma finite_hashes_of: "finite (hashes_of adjMap)"
  by (simp add: hashes_of_def)

lemma FindAllPaths_gen:
  assumes Q: "pq_spec Q \<alpha>"
    and sf: "separator_free (insert source (hashes_of (adjacencySnapshot g)))"
  shows "\<exists>paths. FindAllPaths Q g source target = Some (Inr paths)
        \<and> set paths = join_path ` {ws. fap_gen (adjacencySnapshot g) target [source] ws}"
proof -
  let ?H = "insert source (hashes_of (adjacencySnapshot g))"
  have "\<exists>paths'. FindAllPaths_loop Q (adjacencySnapshot g) target
          (Push Q source (Fin 0) (newPriorityQueue Q), []) = Some (Inr paths')
        \<and> set paths' = set [] \<union> join_path `
            {ws. \<exists>vs \<in># {#[source]#}. fap_gen (adjacencySnapshot g) target vs ws}"
    by (rule fap_loop_correct [OF Q _ _ sf fap_start [OF Q]])
       (auto simp: finite_hashes_of good_partial_def)
  then show ?thesis by (simp add: FindAllPaths_def AdjacencyMap_def)
qed

text \<open>
  C1, as amended.  \<^verbatim>\<open>FindAllPaths\<close> returns texts, one per path: the hashes of the path
  joined by the separator \<^verbatim>\<open>"->"\<close>.  When no vertex hash contains the separator,
  \<^verbatim>\<open>FindAllPaths\<close> returns, and every returned text is the joined text of a simple path
  from \<open>source\<close> to \<open>target\<close> and splits at the separator into the hashes of that path.
\<close>

theorem findAllPaths_joined_text:
  assumes Q: "pq_spec Q \<alpha>"
    and sf: "separator_free (insert source (hashes_of (adjacencySnapshot g)))"
  shows "\<exists>paths. FindAllPaths Q g source target = Some (Inr paths)
        \<and> (\<forall>p \<in> set paths. \<exists>vs. p = join_path vs \<and> Split p gap = vs
              \<and> simple_path (adjacencySnapshot g) source vs target)"
proof -
  let ?am = "adjacencySnapshot g"
  from FindAllPaths_gen [OF Q sf, of target]
  obtain paths where r: "FindAllPaths Q g source target = Some (Inr paths)"
    and res: "set paths = join_path ` {ws. fap_gen ?am target [source] ws}"
    by blast
  have "\<exists>vs. p = join_path vs \<and> Split p gap = vs \<and> simple_path ?am source vs target"
    if "p \<in> set paths" for p
  proof -
    from that res obtain ws where g: "fap_gen ?am target [source] ws" and p: "p = join_path ws"
      by auto
    from fap_gen_simple [OF g, of source] have sp: "simple_path ?am source ws target" by simp
    then have ne: "ws \<noteq> []" and succ: "successively (\<lambda>u v. (u, v) \<in> adj_step ?am) ws"
      and hd: "hd ws = source"
      by (simp_all add: simple_path_def is_path_def)
    have "set ws = insert (hd ws) (set (tl ws))" using ne by (cases ws) auto
    with path_vertices [OF succ] hd have "set ws \<subseteq> insert source (hashes_of ?am)" by auto
    with sf have "\<forall>v \<in> set ws. \<not> sublist gap v"
      by (auto simp: separator_free_def Contains_def)
    with ne have "Split (join_path ws) gap = ws" by (simp add: Split_join_path)
    with p sp show ?thesis by blast
  qed
  with r show ?thesis by blast
qed

lemma rtrancl_stays:
  assumes "(x, y) \<in> R\<^sup>*" and "x \<in> I" and "\<forall>a b. a \<in> I \<and> (a, b) \<in> R \<longrightarrow> b \<in> I"
  shows "y \<in> I"
  using assms by (induction rule: rtrancl_induct) blast+

theorem findAllPaths_joined_text_witness:
  "pq_spec textQueue mset
   \<and> separator_free (insert ''a-'' (hashes_of (adjacencySnapshot graph_dashes)))
   \<and> FindAllPaths textQueue graph_dashes ''a-'' ''c'' = Some (Inr [''a-->>b->c''])
   \<and> Split ''a-->>b->c'' gap = [''a-'', ''>b'', ''c'']
   \<and> simple_path (adjacencySnapshot graph_dashes) ''a-'' [''a-'', ''>b'', ''c''] ''c''"
proof -
  have sf: "separator_free (insert ''a-'' (hashes_of (adjacencySnapshot graph_dashes)))"
    by code_simp
  have r: "FindAllPaths textQueue graph_dashes ''a-'' ''c'' = Some (Inr [''a-->>b->c''])"
    by code_simp
  have sp: "Split ''a-->>b->c'' gap = [''a-'', ''>b'', ''c'']"
    by code_simp
  from findAllPaths_joined_text [OF textQueue_spec sf, of "''c''"]
  obtain paths where a: "FindAllPaths textQueue graph_dashes ''a-'' ''c'' = Some (Inr paths)"
    and b: "\<forall>p \<in> set paths. \<exists>vs. p = join_path vs \<and> Split p gap = vs
              \<and> simple_path (adjacencySnapshot graph_dashes) ''a-'' vs ''c''"
    by blast
  from a r have "paths = [''a-->>b->c'']" by simp
  with b obtain vs where "Split ''a-->>b->c'' gap = vs"
    and "simple_path (adjacencySnapshot graph_dashes) ''a-'' vs ''c''"
    by fastforce
  with sp have "simple_path (adjacencySnapshot graph_dashes) ''a-'' [''a-'', ''>b'', ''c''] ''c''"
    by simp
  with textQueue_spec sf r sp show ?thesis by (intro conjI)
qed

text \<open>
  The claim C1 as stated fails: a hash that contains the separator corrupts the result.
  In \<open>graph_arrow\<close> the vertex \<open>Z\<close> is not reachable from \<open>S\<close>, and \<^verbatim>\<open>FindAllPaths(g, S, Z)\<close>
  returns a path: the text of the partial path to the vertex \<^verbatim>\<open>a->T\<close> is read back as a
  path that ends in \<open>T\<close>.
\<close>

theorem findAllPaths_separator_collision:
  "FindAllPaths textQueue graph_arrow ''S'' ''Z'' = Some (Inr [''S->a->T->Z''])
   \<and> (''S'', ''Z'') \<notin> (adj_step (adjacencySnapshot graph_arrow))\<^sup>*"
proof -
  have r: "FindAllPaths textQueue graph_arrow ''S'' ''Z'' = Some (Inr [''S->a->T->Z''])"
    by code_simp
  have "(''S'', ''Z'') \<notin> (adj_step (adjacencySnapshot graph_arrow))\<^sup>*"
  proof
    assume reach: "(''S'', ''Z'') \<in> (adj_step (adjacencySnapshot graph_arrow))\<^sup>*"
    have closed: "\<forall>a b. a \<in> {''S'', ''a->T''}
        \<and> (a, b) \<in> adj_step (adjacencySnapshot graph_arrow) \<longrightarrow> b \<in> {''S'', ''a->T''}"
      by (simp add: adj_step_def edges_of_def graph_arrow_def)
    have "''Z'' \<in> {''S'', ''a->T''}"
      by (rule rtrancl_stays [OF reach _ closed]) simp
    then show False by simp
  qed
  with r show ?thesis by simp
qed

section \<open>FindAllPaths: a vertex whose hash occurs inside the text of the path\<close>

text \<open>
  C2.  The collection that \<^verbatim>\<open>FindAllPaths\<close> returns is not always exactly the simple paths
  from \<open>source\<close> to \<open>target\<close>.  The code decides whether a vertex is already on the path
  with \<^verbatim>\<open>!strings.Contains(path, adjacency)\<close>, on the joined text of the path and not on
  its vertices, so a vertex whose hash occurs inside that text is skipped although the path
  does not contain it.  In \<open>graph_substring\<close> (edges AB \<open>\<rightarrow>\<close> A and A \<open>\<rightarrow>\<close> C) the
  vertices AB and C exist and the sequence AB, A, C is a simple path from AB to C, and
  \<^verbatim>\<open>FindAllPaths(g, AB, C)\<close> returns no path: the text \<open>AB\<close> contains the hash \<open>A\<close>.
\<close>

theorem findAllPaths_substring_hash_loses_path:
  "FindAllPaths textQueue graph_substring ''AB'' ''C'' = Some (Inr [])
   \<and> vertex_exists graph_substring ''AB'' \<and> vertex_exists graph_substring ''C''
   \<and> simple_path (adjacencySnapshot graph_substring) ''AB'' [''AB'', ''A'', ''C''] ''C''"
proof -
  have r: "FindAllPaths textQueue graph_substring ''AB'' ''C'' = Some (Inr [])"
    by code_simp
  have v: "vertex_exists graph_substring ''AB''" "vertex_exists graph_substring ''C''"
    by (simp_all add: vertex_exists_def graph_substring_def)
  have "simple_path (adjacencySnapshot graph_substring) ''AB'' [''AB'', ''A'', ''C''] ''C''"
    by (simp add: simple_path_def is_path_def adj_step_def edges_of_def graph_substring_def)
  with r v show ?thesis by simp
qed

end
